theory Spec2Isabelle
  imports Complex_Main
begin

section \<open>Faults of the implementation\<close>

text \<open>
  The C++ code has two ways of not returning a value: a failed \<^verbatim>\<open>Expects(...)\<close>
  contract check, which terminates the program, and undefined behaviour (a shift by
  at least the width of \<^verbatim>\<open>int\<close>, an overflowing signed operation, an access through a
  null or dangling pointer, \<^verbatim>\<open>operator[]\<close> out of range). Both are values of the model.
\<close>

datatype fault = Contract_Violation | Undefined_Behaviour

section \<open>Integer arithmetic\<close>

text \<open>
  \<^verbatim>\<open>int\<close> is 32 bits wide, \<^verbatim>\<open>size_t\<close> 64 bits, \<^verbatim>\<open>uint8_t\<close> and \<^verbatim>\<open>uint16_t\<close> 8 and 16 bits.
  Values are integers of HOL, and every operation of the source whose result
  depends on the width is written out.

  \<open>shl1_int n\<close> is the expression \<^verbatim>\<open>1 << n\<close> on \<^verbatim>\<open>int\<close>: undefined for a negative
  count or a count of 32 or more; \<^verbatim>\<open>1 << 31\<close> is the most negative \<^verbatim>\<open>int\<close>.
\<close>

definition shl1_int :: "int \<Rightarrow> fault + int" where
  "shl1_int n =
     (if n < 0 \<or> 32 \<le> n then Inl Undefined_Behaviour
      else if n = 31 then Inr (- (2 ^ 31))
      else Inr (2 ^ nat n))"

definition sub_int :: "int \<Rightarrow> int \<Rightarrow> fault + int" where
  "sub_int a b =
     (if a - b < - (2 ^ 31) \<or> 2 ^ 31 \<le> a - b then Inl Undefined_Behaviour
      else Inr (a - b))"

text \<open>Division of \<^verbatim>\<open>int\<close> truncates towards zero.\<close>

definition div_int :: "int \<Rightarrow> int \<Rightarrow> fault + int" where
  "div_int a b =
     (if b = 0 \<or> (a = - (2 ^ 31) \<and> b = - 1) then Inl Undefined_Behaviour
      else Inr (sgn a * sgn b * (\<bar>a\<bar> div \<bar>b\<bar>)))"

definition size_t_of_int :: "int \<Rightarrow> nat" where
  "size_t_of_int a = nat (a mod 2 ^ 64)"

definition uint8_t_of_int :: "int \<Rightarrow> nat" where
  "uint8_t_of_int a = nat (a mod 2 ^ 8)"

definition uint16_t_of_int :: "int \<Rightarrow> nat" where
  "uint16_t_of_int a = nat (a mod 2 ^ 16)"

text \<open>\<^verbatim>\<open>static_cast<size_t>(row) << level\<close>: undefined for a count of 64 or more.\<close>

definition shl_size_t :: "nat \<Rightarrow> nat \<Rightarrow> fault + nat" where
  "shl_size_t a n =
     (if 64 \<le> n then Inl Undefined_Behaviour else Inr ((a * 2 ^ n) mod 2 ^ 64))"

definition add_size_t :: "nat \<Rightarrow> nat \<Rightarrow> nat" where
  "add_size_t a b = (a + b) mod 2 ^ 64"

section \<open>Geometry types\<close>

text \<open>
  The coordinate type \<open>'f\<close> stands for \<^verbatim>\<open>float\<close>. Its operations are the ones of the
  type classes \<open>plus\<close>, \<open>minus\<close>, \<open>times\<close>, \<open>inverse\<close> and \<open>ord\<close>, which assume no law, so
  that nothing proved below depends on exact arithmetic unless a theorem says so.
\<close>

record 'f vector3 =
  get_x :: 'f
  get_y :: 'f
  get_z :: 'f

definition VEC3 :: "'f \<Rightarrow> 'f \<Rightarrow> 'f \<Rightarrow> 'f vector3" where
  "VEC3 x y z = \<lparr>get_x = x, get_y = y, get_z = z\<rparr>"

record 'f bbox3 =
  get_min :: "'f vector3"
  get_max :: "'f vector3"

definition BBOX3 :: "'f vector3 \<Rightarrow> 'f vector3 \<Rightarrow> 'f bbox3" where
  "BBOX3 mn mx = \<lparr>get_min = mn, get_max = mx\<rparr>"

definition get_size :: "'f::minus bbox3 \<Rightarrow> 'f vector3" where
  "get_size b =
     VEC3 (get_x (get_max b) - get_x (get_min b))
          (get_y (get_max b) - get_y (get_min b))
          (get_z (get_max b) - get_z (get_min b))"

datatype ClipStatus = Outside | Inside | Clipped

section \<open>Nodes and the tree\<close>

text \<open>
  A \<^verbatim>\<open>Node*\<close> is \<open>None\<close> (the null pointer) or \<open>Some i\<close>, the address of
  \<^verbatim>\<open>node_array_[i]\<close>. The array \<^verbatim>\<open>children_[4]\<close> is a list. A field \<^verbatim>\<open>name_\<close> of the
  source is \<open>name\<close> here.
\<close>

record ('t, 'f) Node =
  element :: 't
  children :: "nat option list"
  bbox :: "'f bbox3"

record ('t, 'f) QuadTree =
  node_array :: "('t, 'f) Node list"
  root_bbox :: "'f bbox3"
  tree_depth :: nat
  base_node_size :: "'f vector3"

text \<open>
  What the template arguments and \<^verbatim>\<open>float\<close> provide: the value \<^verbatim>\<open>T{}\<close>, the
  conversion of \<^verbatim>\<open>T\<close> to \<^verbatim>\<open>bool\<close>, the value \<^verbatim>\<open>BBOX3()\<close>, and the conversion of an
  integer to \<^verbatim>\<open>float\<close>.
\<close>

record ('t, 'f) traits =
  T_init :: 't
  T_bool :: "'t \<Rightarrow> bool"
  BBOX3_init :: "'f bbox3"
  to_float :: "int \<Rightarrow> 'f"

definition Node_init :: "('t, 'f) traits \<Rightarrow> ('t, 'f) Node" where
  "Node_init E = \<lparr>element = T_init E, children = [None, None, None, None],
                  bbox = BBOX3_init E\<rparr>"

definition get_bbox :: "('t, 'f) Node \<Rightarrow> 'f bbox3" where
  "get_bbox node = bbox node"

definition get_element :: "('t, 'f) Node \<Rightarrow> 't" where
  "get_element node = element node"

definition set_element :: "('t, 'f) Node \<Rightarrow> 't \<Rightarrow> ('t, 'f) Node" where
  "set_element node e = node\<lparr>element := e\<rparr>"

definition get_child_at :: "('t, 'f) Node \<Rightarrow> nat \<Rightarrow> fault + nat option" where
  "get_child_at node index =
     (if index < 4 then Inr (children node ! index) else Inl Contract_Violation)"

definition has_children :: "('t, 'f) Node \<Rightarrow> bool" where
  "has_children node = (get_child_at node 0 \<noteq> Inr None)"

text \<open>\<^verbatim>\<open>std::vector::resize\<close>: the kept elements keep their state.\<close>

definition resize :: "'a \<Rightarrow> 'a list \<Rightarrow> nat \<Rightarrow> 'a list" where
  "resize d xs n = take n xs @ replicate (n - length xs) d"

definition get_tree_depth :: "('t, 'f) QuadTree \<Rightarrow> nat" where
  "get_tree_depth tree = tree_depth tree"

definition get_root_bbox :: "('t, 'f) QuadTree \<Rightarrow> 'f bbox3" where
  "get_root_bbox tree = root_bbox tree"

definition get_number_nodes :: "('t, 'f) QuadTree \<Rightarrow> nat" where
  "get_number_nodes tree = length (node_array tree)"

definition calculate_number_nodes :: "nat \<Rightarrow> fault + nat" where
  "calculate_number_nodes level =
     (case shl1_int (2 * int level) of Inl e \<Rightarrow> Inl e | Inr p \<Rightarrow>
      case sub_int p 1 of Inl e \<Rightarrow> Inl e | Inr m \<Rightarrow>
      case div_int m 3 of Inl e \<Rightarrow> Inl e | Inr q \<Rightarrow>
        Inr (size_t_of_int q))"

definition calculate_node_index :: "nat \<Rightarrow> nat \<Rightarrow> nat \<Rightarrow> fault + nat" where
  "calculate_node_index level col row =
     (case shl1_int (int level) of Inl e \<Rightarrow> Inl e | Inr p \<Rightarrow>
      if \<not> (0 \<le> int col \<and> int col < p) then Inl Contract_Violation
      else if \<not> (0 \<le> int row \<and> int row < p) then Inl Contract_Violation
      else
        case calculate_number_nodes level of Inl e \<Rightarrow> Inl e | Inr parent_nodes \<Rightarrow>
        case shl_size_t row level of Inl e \<Rightarrow> Inl e | Inr s \<Rightarrow>
          Inr (add_size_t (add_size_t parent_nodes s) col))"

definition get_node_by_index :: "('t, 'f) QuadTree \<Rightarrow> nat \<Rightarrow> fault + ('t, 'f) Node" where
  "get_node_by_index tree index =
     (if index < length (node_array tree) then Inr (node_array tree ! index)
      else Inl Contract_Violation)"

definition get_root_node :: "('t, 'f) QuadTree \<Rightarrow> fault + ('t, 'f) Node" where
  "get_root_node tree =
     (if length (node_array tree) > 0 then Inr (node_array tree ! 0)
      else Inl Contract_Violation)"

definition reset :: "('t, 'f) traits \<Rightarrow> ('t, 'f) QuadTree \<Rightarrow> ('t, 'f) QuadTree" where
  "reset E tree = tree\<lparr>node_array := [], root_bbox := BBOX3_init E, tree_depth := 0\<rparr>"

subsection \<open>Writes to a node of the array\<close>

definition write_bbox :: "('t, 'f) QuadTree \<Rightarrow> nat \<Rightarrow> 'f bbox3 \<Rightarrow> ('t, 'f) QuadTree" where
  "write_bbox tree this b =
     tree\<lparr>node_array := (node_array tree)[this := (node_array tree ! this)\<lparr>bbox := b\<rparr>]\<rparr>"

definition write_child :: "('t, 'f) QuadTree \<Rightarrow> nat \<Rightarrow> nat \<Rightarrow> nat option \<Rightarrow> ('t, 'f) QuadTree" where
  "write_child tree this i p =
     tree\<lparr>node_array := (node_array tree)
        [this := (node_array tree ! this)\<lparr>children := (children (node_array tree ! this))[i := p]\<rparr>]\<rparr>"

definition write_element :: "('t, 'f) QuadTree \<Rightarrow> nat \<Rightarrow> 't \<Rightarrow> ('t, 'f) QuadTree" where
  "write_element tree this e =
     tree\<lparr>node_array := (node_array tree)[this := set_element (node_array tree ! this) e]\<rparr>"

subsection \<open>Node::initialize\<close>

text \<open>
  \<open>Node_initialize E tree this level col row\<close> is the call
  \<^verbatim>\<open>node_array_[this].initialize(tree, level, col, row)\<close>;
  \<open>Node_initialize_children\<close> is its loop over \<^verbatim>\<open>i\<close>, entered with \<^verbatim>\<open>i = 0\<close>.
\<close>

function Node_initialize ::
    "('t, 'f::{plus,times}) traits \<Rightarrow> ('t, 'f) QuadTree \<Rightarrow> nat \<Rightarrow> nat \<Rightarrow> nat \<Rightarrow> nat
      \<Rightarrow> fault + ('t, 'f) QuadTree"
  and Node_initialize_children ::
    "('t, 'f) traits \<Rightarrow> ('t, 'f) QuadTree \<Rightarrow> nat \<Rightarrow> nat \<Rightarrow> nat \<Rightarrow> nat \<Rightarrow> nat
      \<Rightarrow> fault + ('t, 'f) QuadTree"
where
  "Node_initialize E tree this level col row =
     (if length (node_array tree) \<le> this then Inl Undefined_Behaviour
      else
        case shl1_int (int level) of Inl e \<Rightarrow> Inl e | Inr p \<Rightarrow>
        if \<not> (int col < p \<and> int row < p) then Inl Contract_Violation
        else
          case shl1_int (int (tree_depth tree) - 1 - int level) of Inl e \<Rightarrow> Inl e | Inr lf \<Rightarrow>
          let level_factor = to_float E lf;
              base_size = base_node_size tree;
              tree_bbox = root_bbox tree;
              tree_min = get_min tree_bbox;
              tree_max = get_max tree_bbox;
              mn = VEC3 (get_x tree_min + (to_float E (int col) * level_factor * get_x base_size))
                        (get_y tree_min)
                        (get_z tree_min + (to_float E (int row) * level_factor * get_z base_size));
              mx = VEC3 (get_x tree_min + (to_float E (int col + 1) * level_factor * get_x base_size))
                        (get_y tree_max)
                        (get_z tree_min + (to_float E (int row + 1) * level_factor * get_z base_size));
              tree1 = write_bbox tree this (BBOX3 mn mx);
              child_level = uint8_t_of_int (int level + 1)
          in if child_level < tree_depth tree1
             then Node_initialize_children E tree1 this child_level col row 0
             else Inr tree1)"
| "Node_initialize_children E tree this child_level col row i =
     (if i < 4 then
        let child_col = uint16_t_of_int (2 * int col + int (and i 1));
            child_row = uint16_t_of_int (2 * int row + int (drop_bit 1 (and i 2)))
        in case calculate_node_index child_level child_col child_row of
             Inl e \<Rightarrow> Inl e
           | Inr child_index \<Rightarrow>
               if length (node_array tree) \<le> child_index then Inl Undefined_Behaviour
               else
                 case Node_initialize E (write_child tree this i (Some child_index))
                        child_index child_level child_col child_row of
                   Inl e \<Rightarrow> Inl e
                 | Inr tree2 \<Rightarrow> Node_initialize_children E tree2 this child_level col row (i + 1)
      else Inr tree)"
  by pat_completeness auto
termination
  by (relation "measure (\<lambda>a. case a of
          Inl (E, tree, this, level, col, row) \<Rightarrow> 6 * (32 - level)
        | Inr (E, tree, this, child_level, col, row, i) \<Rightarrow> 6 * (32 - child_level) + 5 - i)")
     (auto simp: shl1_int_def uint8_t_of_int_def split: if_splits)

declare Node_initialize.simps [simp del] Node_initialize_children.simps [simp del]

subsection \<open>QuadTree::initialize\<close>

definition initialize ::
    "('t, 'f::{plus,minus,times,inverse}) traits \<Rightarrow> ('t, 'f) QuadTree \<Rightarrow> 'f bbox3 \<Rightarrow> nat
      \<Rightarrow> fault + ('t, 'f) QuadTree" where
  "initialize E tree box depth =
     (if \<not> depth > 0 then Inl Contract_Violation
      else
        let tree1 = tree\<lparr>tree_depth := depth, root_bbox := box\<rparr> in
        case shl1_int (int (tree_depth tree1) - 1) of Inl e \<Rightarrow> Inl e | Inr p \<Rightarrow>
        let base_dimension = to_float E p;
            tree2 = tree1\<lparr>base_node_size :=
                      VEC3 (get_x (get_size (root_bbox tree1)) / base_dimension)
                           (get_y (get_size (root_bbox tree1)))
                           (get_z (get_size (root_bbox tree1)) / base_dimension)\<rparr>
        in case calculate_number_nodes (tree_depth tree2) of Inl e \<Rightarrow> Inl e | Inr num_nodes \<Rightarrow>
           let tree3 = tree2\<lparr>node_array := resize (Node_init E) (node_array tree2) num_nodes\<rparr>
           in Node_initialize E tree3 0 0 0 0)"

subsection \<open>Containment search\<close>

text \<open>
  The recursions over the tree follow pointers, so they take fuel: \<open>None\<close> is a
  recursion deeper than the fuel. \<open>find_containment_children\<close> is the loop
  \<^verbatim>\<open>for (Node* node_ptr : children_)\<close>; its result \<open>Inr None\<close> is the loop running to
  its end.
\<close>

fun find_containment_node_recursive ::
    "nat \<Rightarrow> ('t, 'f::ord) QuadTree \<Rightarrow> nat \<Rightarrow> 'f bbox3 \<Rightarrow> (fault + nat option) option"
  and find_containment_children ::
    "nat \<Rightarrow> ('t, 'f) QuadTree \<Rightarrow> nat option list \<Rightarrow> 'f bbox3 \<Rightarrow> (fault + nat option) option"
where
  "find_containment_node_recursive 0 tree this check_box = None"
| "find_containment_node_recursive (Suc fuel) tree this check_box =
     (if length (node_array tree) \<le> this then Some (Inl Undefined_Behaviour)
      else
        let node = node_array tree ! this;
            v_min_cb = get_min check_box;
            v_max_cb = get_max check_box;
            v_min = get_min (bbox node);
            v_max = get_max (bbox node)
        in if get_x v_min_cb < get_x v_min \<or> get_x v_max_cb > get_x v_max \<or>
              get_y v_min_cb < get_y v_min \<or> get_y v_max_cb > get_y v_max \<or>
              get_z v_min_cb < get_z v_min \<or> get_z v_max_cb > get_z v_max
           then Some (Inr None)
           else if has_children node then
             (case find_containment_children fuel tree (children node) check_box of
                None \<Rightarrow> None
              | Some (Inl e) \<Rightarrow> Some (Inl e)
              | Some (Inr (Some contain_node)) \<Rightarrow> Some (Inr (Some contain_node))
              | Some (Inr None) \<Rightarrow> Some (Inr (Some this)))
           else Some (Inr (Some this)))"
| "find_containment_children fuel tree [] check_box = Some (Inr None)"
| "find_containment_children fuel tree (node_ptr # rest) check_box =
     (case node_ptr of
        None \<Rightarrow> Some (Inl Undefined_Behaviour)
      | Some child \<Rightarrow>
          (case find_containment_node_recursive fuel tree child check_box of
             None \<Rightarrow> None
           | Some (Inl e) \<Rightarrow> Some (Inl e)
           | Some (Inr (Some contain_node)) \<Rightarrow> Some (Inr (Some contain_node))
           | Some (Inr None) \<Rightarrow> find_containment_children fuel tree rest check_box))"

definition find_containment_node ::
    "nat \<Rightarrow> ('t, 'f::ord) QuadTree \<Rightarrow> 'f bbox3 \<Rightarrow> (fault + nat option) option" where
  "find_containment_node fuel tree box =
     (if node_array tree = [] then Some (Inl Contract_Violation)
      else case get_root_node tree of
             Inl e \<Rightarrow> Some (Inl e)
           | Inr root_node \<Rightarrow> find_containment_node_recursive fuel tree 0 box)"

section \<open>The collector\<close>

text \<open>
  \<open>collected\<close> is the output container; a function returns its new contents. The
  loops \<^verbatim>\<open>for (size_t i = 0; i < 4; ++i)\<close> run over the list of the indices still to
  visit. \<open>clipstatus\<close> and \<open>test_intersection\<close> are the member functions of the
  template argument \<^verbatim>\<open>BBOX3\<close>.
\<close>

definition push_if_present :: "('t, 'f) traits \<Rightarrow> ('t, 'f) Node \<Rightarrow> 't list \<Rightarrow> 't list" where
  "push_if_present E node collected =
     (let e = get_element node in if T_bool E e then collected @ [e] else collected)"

fun recurse_collect_all_nodes ::
    "nat \<Rightarrow> ('t, 'f) traits \<Rightarrow> ('t, 'f) QuadTree \<Rightarrow> nat \<Rightarrow> 't list \<Rightarrow> (fault + 't list) option"
  and collect_all_children ::
    "nat \<Rightarrow> ('t, 'f) traits \<Rightarrow> ('t, 'f) QuadTree \<Rightarrow> ('t, 'f) Node \<Rightarrow> nat list \<Rightarrow> 't list
      \<Rightarrow> (fault + 't list) option"
where
  "recurse_collect_all_nodes 0 E tree this collected = None"
| "recurse_collect_all_nodes (Suc fuel) E tree this collected =
     (if length (node_array tree) \<le> this then Some (Inl Undefined_Behaviour)
      else
        let node = node_array tree ! this;
            collected1 = push_if_present E node collected
        in if has_children node
           then collect_all_children fuel E tree node [0, 1, 2, 3] collected1
           else Some (Inr collected1))"
| "collect_all_children fuel E tree node [] collected = Some (Inr collected)"
| "collect_all_children fuel E tree node (i # rest) collected =
     (case get_child_at node i of
        Inl e \<Rightarrow> Some (Inl e)
      | Inr None \<Rightarrow> Some (Inl Undefined_Behaviour)
      | Inr (Some child) \<Rightarrow>
          (case recurse_collect_all_nodes fuel E tree child collected of
             None \<Rightarrow> None
           | Some (Inl e) \<Rightarrow> Some (Inl e)
           | Some (Inr collected1) \<Rightarrow> collect_all_children fuel E tree node rest collected1))"

fun recurse_collect_by_frustum ::
    "nat \<Rightarrow> ('t, 'f) traits \<Rightarrow> ('f bbox3 \<Rightarrow> 'm \<Rightarrow> ClipStatus) \<Rightarrow> ('t, 'f) QuadTree \<Rightarrow> nat \<Rightarrow> 'm
      \<Rightarrow> 't list \<Rightarrow> (fault + 't list) option"
  and collect_by_frustum_children ::
    "nat \<Rightarrow> ('t, 'f) traits \<Rightarrow> ('f bbox3 \<Rightarrow> 'm \<Rightarrow> ClipStatus) \<Rightarrow> ('t, 'f) QuadTree
      \<Rightarrow> ('t, 'f) Node \<Rightarrow> nat list \<Rightarrow> 'm \<Rightarrow> 't list \<Rightarrow> (fault + 't list) option"
where
  "recurse_collect_by_frustum 0 E clipstatus tree this projection collected = None"
| "recurse_collect_by_frustum (Suc fuel) E clipstatus tree this projection collected =
     (if length (node_array tree) \<le> this then Some (Inl Undefined_Behaviour)
      else
        let node = node_array tree ! this;
            clip_status = clipstatus (get_bbox node) projection
        in if clip_status = Outside then Some (Inr collected)
           else if clip_status = Inside
           then recurse_collect_all_nodes (Suc fuel) E tree this collected
           else
             let collected1 = push_if_present E node collected
             in if has_children node
                then collect_by_frustum_children fuel E clipstatus tree node [0, 1, 2, 3]
                       projection collected1
                else Some (Inr collected1))"
| "collect_by_frustum_children fuel E clipstatus tree node [] projection collected =
     Some (Inr collected)"
| "collect_by_frustum_children fuel E clipstatus tree node (i # rest) projection collected =
     (case get_child_at node i of
        Inl e \<Rightarrow> Some (Inl e)
      | Inr None \<Rightarrow> Some (Inl Undefined_Behaviour)
      | Inr (Some child) \<Rightarrow>
          (case recurse_collect_by_frustum fuel E clipstatus tree child projection collected of
             None \<Rightarrow> None
           | Some (Inl e) \<Rightarrow> Some (Inl e)
           | Some (Inr collected1) \<Rightarrow>
               collect_by_frustum_children fuel E clipstatus tree node rest projection collected1))"

fun recurse_line_intersect ::
    "nat \<Rightarrow> ('t, 'f) traits \<Rightarrow> ('f bbox3 \<Rightarrow> 'l \<Rightarrow> bool) \<Rightarrow> ('t, 'f) QuadTree \<Rightarrow> nat \<Rightarrow> 'l
      \<Rightarrow> 't list \<Rightarrow> (fault + 't list) option"
  and line_intersect_children ::
    "nat \<Rightarrow> ('t, 'f) traits \<Rightarrow> ('f bbox3 \<Rightarrow> 'l \<Rightarrow> bool) \<Rightarrow> ('t, 'f) QuadTree
      \<Rightarrow> ('t, 'f) Node \<Rightarrow> nat list \<Rightarrow> 'l \<Rightarrow> 't list \<Rightarrow> (fault + 't list) option"
where
  "recurse_line_intersect 0 E test_intersection tree this line collected = None"
| "recurse_line_intersect (Suc fuel) E test_intersection tree this line collected =
     (if length (node_array tree) \<le> this then Some (Inl Undefined_Behaviour)
      else
        let node = node_array tree ! this
        in if test_intersection (get_bbox node) line then
             let collected1 = push_if_present E node collected
             in if has_children node
                then line_intersect_children fuel E test_intersection tree node [0, 1, 2, 3]
                       line collected1
                else Some (Inr collected1)
           else Some (Inr collected))"
| "line_intersect_children fuel E test_intersection tree node [] line collected =
     Some (Inr collected)"
| "line_intersect_children fuel E test_intersection tree node (i # rest) line collected =
     (case get_child_at node i of
        Inl e \<Rightarrow> Some (Inl e)
      | Inr None \<Rightarrow> Some (Inl Undefined_Behaviour)
      | Inr (Some child) \<Rightarrow>
          (case recurse_line_intersect fuel E test_intersection tree child line collected of
             None \<Rightarrow> None
           | Some (Inl e) \<Rightarrow> Some (Inl e)
           | Some (Inr collected1) \<Rightarrow>
               line_intersect_children fuel E test_intersection tree node rest line collected1))"

text \<open>Both entry points clear the container first: its old contents are not used.\<close>

definition collect_by_frustum ::
    "nat \<Rightarrow> ('t, 'f) traits \<Rightarrow> ('f bbox3 \<Rightarrow> 'm \<Rightarrow> ClipStatus) \<Rightarrow> ('t, 'f) QuadTree \<Rightarrow> nat \<Rightarrow> 'm
      \<Rightarrow> 't list \<Rightarrow> (fault + 't list) option" where
  "collect_by_frustum fuel E clipstatus tree node projection collected =
     (let cleared = [] in recurse_collect_by_frustum fuel E clipstatus tree node projection cleared)"

definition collect_by_line_intersect ::
    "nat \<Rightarrow> ('t, 'f) traits \<Rightarrow> ('f bbox3 \<Rightarrow> 'l \<Rightarrow> bool) \<Rightarrow> ('t, 'f) QuadTree \<Rightarrow> nat \<Rightarrow> 'l
      \<Rightarrow> 't list \<Rightarrow> (fault + 't list) option" where
  "collect_by_line_intersect fuel E test_intersection tree node line collected =
     (let cleared = [] in recurse_line_intersect fuel E test_intersection tree node line cleared)"

section \<open>Notions used to state the properties\<close>

text \<open>The number of nodes above a level, and the index of a grid cell, in closed form.\<close>

definition level_start :: "nat \<Rightarrow> nat" where
  "level_start level = (4 ^ level - 1) div 3"

definition node_index :: "nat \<Rightarrow> nat \<Rightarrow> nat \<Rightarrow> nat" where
  "node_index level col row = level_start level + row * 2 ^ level + col"

definition valid_cell :: "nat \<Rightarrow> nat \<Rightarrow> nat \<Rightarrow> nat \<Rightarrow> bool" where
  "valid_cell depth level col row \<longleftrightarrow> level < depth \<and> col < 2 ^ level \<and> row < 2 ^ level"

text \<open>
  The box of the grid cell \<open>(level, col, row)\<close> of a tree of the given depth, derived from
  the root box alone.
\<close>

definition cell_box ::
    "('t, 'f::{plus,minus,times,inverse}) traits \<Rightarrow> 'f bbox3 \<Rightarrow> nat \<Rightarrow> nat \<Rightarrow> nat \<Rightarrow> nat \<Rightarrow> 'f bbox3" where
  "cell_box E box depth level col row =
     (let level_factor = to_float E (2 ^ (depth - 1 - level));
          base_x = (get_x (get_max box) - get_x (get_min box)) / to_float E (2 ^ (depth - 1));
          base_z = (get_z (get_max box) - get_z (get_min box)) / to_float E (2 ^ (depth - 1))
      in BBOX3
           (VEC3 (get_x (get_min box) + (to_float E (int col) * level_factor * base_x))
                 (get_y (get_min box))
                 (get_z (get_min box) + (to_float E (int row) * level_factor * base_z)))
           (VEC3 (get_x (get_min box) + (to_float E (int col + 1) * level_factor * base_x))
                 (get_y (get_max box))
                 (get_z (get_min box) + (to_float E (int row + 1) * level_factor * base_z))))"

text \<open>The same box, from the fields of a tree.\<close>

definition node_box ::
    "('t, 'f::{plus,times}) traits \<Rightarrow> ('t, 'f) QuadTree \<Rightarrow> nat \<Rightarrow> nat \<Rightarrow> nat \<Rightarrow> 'f bbox3" where
  "node_box E tree level col row =
     (let level_factor = to_float E (2 ^ (tree_depth tree - 1 - level));
          base_size = base_node_size tree;
          tree_min = get_min (root_bbox tree);
          tree_max = get_max (root_bbox tree)
      in BBOX3
           (VEC3 (get_x tree_min + (to_float E (int col) * level_factor * get_x base_size))
                 (get_y tree_min)
                 (get_z tree_min + (to_float E (int row) * level_factor * get_z base_size)))
           (VEC3 (get_x tree_min + (to_float E (int col + 1) * level_factor * get_x base_size))
                 (get_y tree_max)
                 (get_z tree_min + (to_float E (int row + 1) * level_factor * get_z base_size))))"

text \<open>The four quadrants of a cell, in the order of the child slots, and their indices.\<close>

definition quadrant_col :: "nat \<Rightarrow> nat \<Rightarrow> nat" where
  "quadrant_col col i = 2 * col + i mod 2"

definition quadrant_row :: "nat \<Rightarrow> nat \<Rightarrow> nat" where
  "quadrant_row row i = 2 * row + i div 2"

definition quadrant_index :: "nat \<Rightarrow> nat \<Rightarrow> nat \<Rightarrow> nat \<Rightarrow> nat" where
  "quadrant_index level col row i =
     node_index (Suc level) (quadrant_col col i) (quadrant_row row i)"

definition link_children :: "nat \<Rightarrow> nat \<Rightarrow> nat \<Rightarrow> nat \<Rightarrow> nat option list \<Rightarrow> nat option list" where
  "link_children level col row i cs =
     fold (\<lambda>k cs. cs[k := Some (quadrant_index level col row k)]) [i ..< 4] cs"

text \<open>The cell \<open>(level', col', row')\<close> lies in the subtree of the cell \<open>(level, col, row)\<close>.\<close>

definition in_subtree :: "nat \<Rightarrow> nat \<Rightarrow> nat \<Rightarrow> nat \<Rightarrow> nat \<Rightarrow> nat \<Rightarrow> bool" where
  "in_subtree level col row level' col' row' \<longleftrightarrow>
     level \<le> level' \<and> col' div 2 ^ (level' - level) = col \<and> row' div 2 ^ (level' - level) = row"

text \<open>What \<^verbatim>\<open>Node::initialize\<close> leaves in the node of a cell.\<close>

definition initialized_node ::
    "('t, 'f::{plus,times}) traits \<Rightarrow> ('t, 'f) QuadTree \<Rightarrow> nat \<Rightarrow> nat \<Rightarrow> nat
      \<Rightarrow> ('t, 'f) Node \<Rightarrow> ('t, 'f) Node" where
  "initialized_node E tree level col row node =
     node\<lparr>bbox := node_box E tree level col row,
          children := (if Suc level < tree_depth tree
                       then link_children level col row 0 (children node)
                       else children node)\<rparr>"

definition same_header :: "('t, 'f) QuadTree \<Rightarrow> ('t, 'f) QuadTree \<Rightarrow> bool" where
  "same_header tree tree' \<longleftrightarrow>
     root_bbox tree' = root_bbox tree \<and> tree_depth tree' = tree_depth tree \<and>
     base_node_size tree' = base_node_size tree \<and>
     length (node_array tree') = length (node_array tree)"

text \<open>
  The effect of \<open>Node_initialize\<close> on the cell \<open>(level, col, row)\<close>, and of the loop
  \<open>Node_initialize_children\<close> entered at \<open>i\<close>: every node of the array is described by
  its cell.
\<close>

definition initialized_subtree ::
    "('t, 'f::{plus,times}) traits \<Rightarrow> ('t, 'f) QuadTree \<Rightarrow> ('t, 'f) QuadTree \<Rightarrow> nat \<Rightarrow> nat \<Rightarrow> nat \<Rightarrow> bool" where
  "initialized_subtree E tree tree' level col row \<longleftrightarrow>
     same_header tree tree' \<and>
     (\<forall>l' c' r'. valid_cell (tree_depth tree) l' c' r' \<longrightarrow>
        node_array tree' ! node_index l' c' r' =
          (if in_subtree level col row l' c' r'
           then initialized_node E tree l' c' r' (node_array tree ! node_index l' c' r')
           else node_array tree ! node_index l' c' r'))"

definition initialized_children ::
    "('t, 'f::{plus,times}) traits \<Rightarrow> ('t, 'f) QuadTree \<Rightarrow> ('t, 'f) QuadTree \<Rightarrow> nat \<Rightarrow> nat \<Rightarrow> nat \<Rightarrow> nat
      \<Rightarrow> bool" where
  "initialized_children E tree tree' level col row i \<longleftrightarrow>
     same_header tree tree' \<and>
     (\<forall>l' c' r'. valid_cell (tree_depth tree) l' c' r' \<longrightarrow>
        node_array tree' ! node_index l' c' r' =
          (if l' = level \<and> c' = col \<and> r' = row
           then (node_array tree ! node_index l' c' r')
                  \<lparr>children := link_children level col row i
                                 (children (node_array tree ! node_index l' c' r'))\<rparr>
           else if \<exists>k. i \<le> k \<and> k < 4 \<and>
                     in_subtree (Suc level) (quadrant_col col k) (quadrant_row row k) l' c' r'
           then initialized_node E tree l' c' r' (node_array tree ! node_index l' c' r')
           else node_array tree ! node_index l' c' r'))"

text \<open>
  A tree as \<open>initialize\<close> links it: the node of every cell above the last level points
  to the nodes of its four quadrants, and the nodes of the last level have four null
  slots.
\<close>

definition linked_tree :: "nat \<Rightarrow> ('t, 'f) QuadTree \<Rightarrow> bool" where
  "linked_tree depth tree \<longleftrightarrow>
     depth \<le> 15 \<and> tree_depth tree = depth \<and> length (node_array tree) = level_start depth \<and>
     (\<forall>l c r. valid_cell depth l c r \<longrightarrow>
        children (node_array tree ! node_index l c r) =
          (if Suc l < depth
           then [Some (quadrant_index l c r 0), Some (quadrant_index l c r 1),
                 Some (quadrant_index l c r 2), Some (quadrant_index l c r 3)]
           else [None, None, None, None]))"

definition cell_node :: "('t, 'f) QuadTree \<Rightarrow> nat \<times> nat \<times> nat \<Rightarrow> ('t, 'f) Node" where
  "cell_node tree cell = (case cell of (l, c, r) \<Rightarrow> node_array tree ! node_index l c r)"

text \<open>The present payloads of a list of cells, in the order of the list.\<close>

definition present_payloads ::
    "('t, 'f) traits \<Rightarrow> ('t, 'f) QuadTree \<Rightarrow> (nat \<times> nat \<times> nat) list \<Rightarrow> 't list" where
  "present_payloads E tree cells =
     filter (T_bool E) (map (\<lambda>cell. get_element (cell_node tree cell)) cells)"

text \<open>
  The cells of the subtree of a cell, in depth-first pre-order with the quadrants in
  the order 0, 1, 2, 3.
\<close>

function subtree_cells :: "nat \<Rightarrow> nat \<Rightarrow> nat \<Rightarrow> nat \<Rightarrow> (nat \<times> nat \<times> nat) list" where
  "subtree_cells depth l c r =
     (l, c, r) #
     (if Suc l < depth
      then concat (map (\<lambda>k. subtree_cells depth (Suc l) (quadrant_col c k) (quadrant_row r k))
                   [0, 1, 2, 3])
      else [])"
  by pat_completeness auto
termination
  by (relation "measure (\<lambda>(depth, l, c, r). depth - l)") auto

declare subtree_cells.simps [simp del]

text \<open>
  The cell \<open>(l', c', r')\<close> and all the cells above it up to level \<open>l\<close> have a box that the
  test accepts.
\<close>

definition chain_accepted ::
    "('f bbox3 \<Rightarrow> bool) \<Rightarrow> ('t, 'f) QuadTree \<Rightarrow> nat \<Rightarrow> nat \<times> nat \<times> nat \<Rightarrow> bool" where
  "chain_accepted accepts tree l cell =
     (case cell of (l', c', r') \<Rightarrow>
        \<forall>k. l \<le> k \<and> k \<le> l' \<longrightarrow>
          accepts (get_bbox (cell_node tree (k, c' div 2 ^ (l' - k), r' div 2 ^ (l' - k)))))"

text \<open>The cells that the two collectors visit and the containment search returns.\<close>

function line_cells ::
    "('f bbox3 \<Rightarrow> bool) \<Rightarrow> ('t, 'f) QuadTree \<Rightarrow> nat \<Rightarrow> nat \<Rightarrow> nat \<Rightarrow> nat \<Rightarrow> (nat \<times> nat \<times> nat) list" where
  "line_cells accepts tree depth l c r =
     (if accepts (get_bbox (cell_node tree (l, c, r)))
      then (l, c, r) #
           (if Suc l < depth
            then concat (map (\<lambda>k. line_cells accepts tree depth (Suc l)
                                     (quadrant_col c k) (quadrant_row r k)) [0, 1, 2, 3])
            else [])
      else [])"
  by pat_completeness auto
termination
  by (relation "measure (\<lambda>(accepts, tree, depth, l, c, r). depth - l)") auto

declare line_cells.simps [simp del]

function frustum_cells ::
    "('f bbox3 \<Rightarrow> ClipStatus) \<Rightarrow> ('t, 'f) QuadTree \<Rightarrow> nat \<Rightarrow> nat \<Rightarrow> nat \<Rightarrow> nat
      \<Rightarrow> (nat \<times> nat \<times> nat) list" where
  "frustum_cells status tree depth l c r =
     (case status (get_bbox (cell_node tree (l, c, r))) of
        Outside \<Rightarrow> []
      | Inside \<Rightarrow> subtree_cells depth l c r
      | Clipped \<Rightarrow>
          (l, c, r) #
          (if Suc l < depth
           then concat (map (\<lambda>k. frustum_cells status tree depth (Suc l)
                                    (quadrant_col c k) (quadrant_row r k)) [0, 1, 2, 3])
           else []))"
  by pat_completeness auto
termination
  by (relation "measure (\<lambda>(status, tree, depth, l, c, r). depth - l)") auto

declare frustum_cells.simps [simp del]

text \<open>
  The containment test of the code rejects a query box, and the box of a node fully
  contains a query box.
\<close>

definition rejects :: "'f::ord bbox3 \<Rightarrow> 'f bbox3 \<Rightarrow> bool" where
  "rejects nb q \<longleftrightarrow>
     get_x (get_min q) < get_x (get_min nb) \<or>
     get_x (get_max q) > get_x (get_max nb) \<or>
     get_y (get_min q) < get_y (get_min nb) \<or>
     get_y (get_max q) > get_y (get_max nb) \<or>
     get_z (get_min q) < get_z (get_min nb) \<or>
     get_z (get_max q) > get_z (get_max nb)"

definition contains_box :: "'f::ord bbox3 \<Rightarrow> 'f bbox3 \<Rightarrow> bool" where
  "contains_box nb q \<longleftrightarrow>
     get_x (get_min nb) \<le> get_x (get_min q) \<and>
     get_x (get_max q) \<le> get_x (get_max nb) \<and>
     get_y (get_min nb) \<le> get_y (get_min q) \<and>
     get_y (get_max q) \<le> get_y (get_max nb) \<and>
     get_z (get_min nb) \<le> get_z (get_min q) \<and>
     get_z (get_max q) \<le> get_z (get_max nb)"

text \<open>The first cell of a list for which a search finds something.\<close>

fun first_found :: "('a \<Rightarrow> 'b option) \<Rightarrow> 'a list \<Rightarrow> 'b option" where
  "first_found f [] = None"
| "first_found f (x # xs) = (case f x of Some y \<Rightarrow> Some y | None \<Rightarrow> first_found f xs)"

function find_cell ::
    "('t, 'f::ord) QuadTree \<Rightarrow> 'f bbox3 \<Rightarrow> nat \<Rightarrow> nat \<Rightarrow> nat \<Rightarrow> nat \<Rightarrow> (nat \<times> nat \<times> nat) option" where
  "find_cell tree check_box depth l c r =
     (if rejects (get_bbox (cell_node tree (l, c, r))) check_box then None
      else if Suc l < depth then
        (case first_found (\<lambda>k. find_cell tree check_box depth (Suc l)
                                  (quadrant_col c k) (quadrant_row r k)) [0, 1, 2, 3] of
           Some cell \<Rightarrow> Some cell
         | None \<Rightarrow> Some (l, c, r))
      else Some (l, c, r))"
  by pat_completeness auto
termination
  by (relation "measure (\<lambda>(tree, check_box, depth, l, c, r). depth - l)") auto

declare find_cell.simps [simp del]

text \<open>
  Two properties of the arithmetic of \<^verbatim>\<open>float\<close> on which the search for the deepest
  containing node depends. Products of two small non-negative integers are exact.
  The grid lines of an axis, \<open>lo + k * base\<close> for \<open>k\<close> from 0 to \<open>n\<close>, are monotone in
  \<open>k\<close>, in one direction or the other. Both hold in exact arithmetic, and for
  IEEE floats on finite values, where rounding is monotone and integers below
  \<open>2 ^ 24\<close> are exact.
\<close>

definition exact_products :: "('t, 'f::times) traits \<Rightarrow> bool" where
  "exact_products E \<longleftrightarrow>
     (\<forall>a b. 0 \<le> a \<and> 0 \<le> b \<and> a * b \<le> 2 ^ 14 \<longrightarrow>
        to_float E a * to_float E b = to_float E (a * b))"

definition grid_line :: "('t, 'f::{plus,times}) traits \<Rightarrow> 'f \<Rightarrow> 'f \<Rightarrow> nat \<Rightarrow> 'f" where
  "grid_line E lo base k = lo + (to_float E (int k) * base)"

definition monotone_lines :: "(nat \<Rightarrow> 'f::ord) \<Rightarrow> nat \<Rightarrow> bool" where
  "monotone_lines g n \<longleftrightarrow>
     (\<forall>j k. j \<le> k \<and> k \<le> n \<longrightarrow> g j \<le> g k) \<or> (\<forall>j k. j \<le> k \<and> k \<le> n \<longrightarrow> g k \<le> g j)"

definition monotone_grid ::
    "('t, 'f::{plus,minus,times,inverse,ord}) traits \<Rightarrow> 'f bbox3 \<Rightarrow> nat \<Rightarrow> bool" where
  "monotone_grid E box depth \<longleftrightarrow>
     monotone_lines
       (grid_line E (get_x (get_min box))
          ((get_x (get_max box) - get_x (get_min box)) / to_float E (2 ^ (depth - 1))))
       (2 ^ (depth - 1)) \<and>
     monotone_lines
       (grid_line E (get_z (get_min box))
          ((get_z (get_max box) - get_z (get_min box)) / to_float E (2 ^ (depth - 1))))
       (2 ^ (depth - 1))"

text \<open>
  On one axis with the grid lines \<open>g\<close>: the cell \<open>c\<close> of level \<open>l\<close> contains the interval
  from \<open>qlo\<close> to \<open>qhi\<close>.
\<close>

definition axis_contains :: "(nat \<Rightarrow> 'f::ord) \<Rightarrow> nat \<Rightarrow> 'f \<Rightarrow> 'f \<Rightarrow> nat \<Rightarrow> nat \<Rightarrow> bool" where
  "axis_contains g depth qlo qhi l c \<longleftrightarrow>
     g (c * 2 ^ (depth - 1 - l)) \<le> qlo \<and> qhi \<le> g ((c + 1) * 2 ^ (depth - 1 - l))"

section \<open>Calls of a client and a test fixture\<close>

text \<open>
  \<open>set_element_at tree index e\<close> is the call
  \<^verbatim>\<open>tree.get_node_by_index(index).set_element(e)\<close>, and \<open>set_elements\<close> a sequence of
  such calls.
\<close>

definition set_element_at ::
    "('t, 'f) QuadTree \<Rightarrow> nat \<Rightarrow> 't \<Rightarrow> fault + ('t, 'f) QuadTree" where
  "set_element_at tree index e =
     (case get_node_by_index tree index of
        Inl f \<Rightarrow> Inl f
      | Inr node \<Rightarrow> Inr (write_element tree index e))"

fun set_elements ::
    "('t, 'f) QuadTree \<Rightarrow> (nat \<times> 't) list \<Rightarrow> fault + ('t, 'f) QuadTree" where
  "set_elements tree [] = Inr tree"
| "set_elements tree ((index, e) # rest) =
     (case set_element_at tree index e of
        Inl f \<Rightarrow> Inl f
      | Inr tree1 \<Rightarrow> set_elements tree1 rest)"

text \<open>
  The fixture of the unit tests: payloads are \<^verbatim>\<open>int\<close> (0 converts to \<^verbatim>\<open>false\<close>), the root
  box is \<open>[-100, 100] \<times> [-50, 50] \<times> [-100, 100]\<close>, and the tree is default-constructed.
  Coordinates are reals here. The value chosen for \<^verbatim>\<open>BBOX3()\<close> is never read.
\<close>

definition fixture_traits :: "(int, real) traits" where
  "fixture_traits = \<lparr>T_init = 0, T_bool = (\<lambda>e. e \<noteq> 0),
     BBOX3_init = BBOX3 (VEC3 0 0 0) (VEC3 0 0 0), to_float = of_int\<rparr>"

definition fixture_root_box :: "real bbox3" where
  "fixture_root_box = BBOX3 (VEC3 (- 100) (- 50) (- 100)) (VEC3 100 50 100)"

definition fixture_tree :: "(int, real) QuadTree" where
  "fixture_tree = \<lparr>node_array = [], root_bbox = BBOX3_init fixture_traits, tree_depth = 0,
     base_node_size = VEC3 0 0 0\<rparr>"

text \<open>
  The payloads of the collector tests, and a classification and an intersection test
  for the fixture: the classification is the transform itself, and a line is a value
  of X that the X range of an intersected box contains.
\<close>

definition fixture_payloads :: "(nat \<times> int) list" where
  "fixture_payloads = [(0, 10), (1, 20), (2, 30), (3, 40)]"

definition fixture_clipstatus :: "real bbox3 \<Rightarrow> ClipStatus \<Rightarrow> ClipStatus" where
  "fixture_clipstatus b projection = projection"

definition fixture_test_intersection :: "real bbox3 \<Rightarrow> real \<Rightarrow> bool" where
  "fixture_test_intersection b line \<longleftrightarrow> get_x (get_min b) \<le> line \<and> line \<le> get_x (get_max b)"

section \<open>Index arithmetic\<close>

lemmas index_eval = calculate_node_index_def calculate_number_nodes_def shl1_int_def
  sub_int_def div_int_def size_t_of_int_def shl_size_t_def add_size_t_def

lemmas fixture_defs = fixture_traits_def fixture_root_box_def fixture_tree_def VEC3_def BBOX3_def

lemma shl1_int_small: "n < 31 \<Longrightarrow> shl1_int (int n) = Inr (2 ^ n)"
  by (simp add: shl1_int_def)

lemma sub_int_pow: 
  assumes n: "n < 31" shows "sub_int (2 ^ n) 1 = Inr (2 ^ n - 1)"
proof -
  define x :: int where "x = 2 ^ n"
  have "x \<le> 2 ^ 30" unfolding x_def using n by (intro power_increasing) auto
  moreover have "0 < x" unfolding x_def by simp
  ultimately have "sub_int x 1 = Inr (x - 1)" by (simp add: sub_int_def)
  thus ?thesis by (simp add: x_def)
qed

lemma div_int_nonneg: "0 \<le> a \<Longrightarrow> 0 < b \<Longrightarrow> div_int a b = Inr (a div b)"
  by (cases "a = 0") (auto simp: div_int_def sgn_if)

lemma size_t_of_int_small: "0 \<le> a \<Longrightarrow> a < 2 ^ 64 \<Longrightarrow> size_t_of_int a = nat a"
  by (simp add: size_t_of_int_def)

lemma calculate_number_nodes_low: 
  assumes "level \<le> 15" 
  shows "calculate_number_nodes level = Inr (level_start level)"
proof -
  have l: "2 * level < 31" using assms by simp
  have s: "shl1_int (2 * int level) = Inr (2 ^ (2 * level))"
    using shl1_int_small [OF l] by simp
  define x :: int where "x = 2 ^ (2 * level)"
  have b: "x \<le> 2 ^ 30" unfolding x_def using l by (intro power_increasing) auto
  have p: "0 < x" unfolding x_def by simp
  have q0: "0 \<le> (x - 1) div 3" using p by presburger
  have "(x - 1) div 3 \<le> x" using p by presburger
  hence q1: "(x - 1) div 3 < 2 ^ 64" using b by simp
  have e: "nat ((x - 1) div 3) = (4 ^ level - 1) div 3"
  proof -
    have "x - 1 = int (4 ^ level - 1)"
      by (simp add: x_def power_mult of_nat_diff)
    thus ?thesis by (simp add: zdiv_int [symmetric] del: of_nat_diff)
  qed
  have d: "div_int (x - 1) 3 = Inr ((x - 1) div 3)"
    using p by (intro div_int_nonneg) simp_all
  show ?thesis
    unfolding calculate_number_nodes_def level_start_def
    using s sub_int_pow [OF l] d size_t_of_int_small [OF q0 q1] e
    by (simp add: x_def)
qed

lemma calculate_number_nodes_high:
  "16 \<le> level \<Longrightarrow> calculate_number_nodes level = Inl Undefined_Behaviour"
  by (simp add: calculate_number_nodes_def shl1_int_def)

lemma four_pow_mod3: "(4::nat) ^ n mod 3 = 1"
  by (induction n) (simp_all add: mod_mult_right_eq [symmetric, of 4])

lemma three_level_start: "3 * level_start level + 1 = 4 ^ level"
proof -
  have "(4::nat) ^ level = 3 * (4 ^ level div 3) + 1"
    using four_pow_mod3 [of level] mult_div_mod_eq [of 3 "(4::nat) ^ level"] by simp
  moreover have "((4::nat) ^ level - 1) div 3 = 4 ^ level div 3"
    using four_pow_mod3 [of level] by presburger
  ultimately show ?thesis by (simp add: level_start_def)
qed

lemma level_start_0: "level_start 0 = 0" by (simp add: level_start_def)

lemma level_start_Suc: "level_start (Suc level) = level_start level + 4 ^ level"
  using three_level_start [of level] three_level_start [of "Suc level"] by simp

lemma level_start_mono: "l \<le> l' \<Longrightarrow> level_start l \<le> level_start l'"
  by (induction l' ) (auto simp: level_start_Suc le_Suc_eq)

lemma level_start_bound: "level \<le> 15 \<Longrightarrow> level_start level < 2 ^ 30"
proof -
  assume "level \<le> 15"
  hence "(4::nat) ^ level \<le> 4 ^ 15" by (intro power_increasing) auto
  thus ?thesis using three_level_start [of level] by simp
qed

lemma cell_offset_bound: 
  assumes "col < 2 ^ level" "row < 2 ^ level" 
  shows "row * 2 ^ level + col < (4::nat) ^ level"
proof -
  have "row * 2 ^ level + col < (row + 1) * 2 ^ level" using assms by simp
  also have "\<dots> \<le> 2 ^ level * 2 ^ level" using assms(2) by (intro mult_le_mono1) simp
  also have "\<dots> = (4::nat) ^ level" by (simp add: power_mult_distrib [symmetric])
  finally show ?thesis .
qed

lemma node_index_range:
  assumes "col < 2 ^ level" "row < 2 ^ level" 
  shows "level_start level \<le> node_index level col row" "node_index level col row < level_start (Suc level)"
  using cell_offset_bound [OF assms] by (simp_all add: node_index_def level_start_Suc)

lemma node_index_inj:
  assumes "col < 2 ^ level" "row < 2 ^ level" "col' < 2 ^ level'" "row' < 2 ^ level'"
    and eq: "node_index level col row = node_index level' col' row'"
  shows "level = level' \<and> col = col' \<and> row = row'"
proof -
  have lv: "level = level'"
  proof (rule ccontr)
    assume "level \<noteq> level'"
    then consider "Suc level \<le> level'" | "Suc level' \<le> level" by linarith
    then show False
    proof cases
      case 1
      from level_start_mono [OF 1] node_index_range [OF assms(1,2)] node_index_range [OF assms(3,4)] eq
      show False by simp
    next
      case 2
      from level_start_mono [OF 2] node_index_range [OF assms(1,2)] node_index_range [OF assms(3,4)] eq
      show False by simp
    qed
  qed
  have e: "row * 2 ^ level + col = row' * 2 ^ level + col'" using eq lv by (simp add: node_index_def)
  have "(row * 2 ^ level + col) div 2 ^ level = row" using assms(1) by simp
  moreover have "(row' * 2 ^ level + col') div 2 ^ level = row'" using assms(3) lv by simp
  ultimately have r: "row = row'" using e by simp
  with e have "col = col'" by simp
  with lv r show ?thesis by simp
qed

lemma node_index_surj:
  assumes "level_start level \<le> i" "i < level_start (Suc level)"
  shows "\<exists>col row. col < 2 ^ level \<and> row < 2 ^ level \<and> i = node_index level col row"
proof -
  define k where "k = i - level_start level"
  have k: "k < 4 ^ level" using assms by (simp add: k_def level_start_Suc)
  have "(4::nat) ^ level = 2 ^ level * 2 ^ level" by (simp add: power_mult_distrib [symmetric])
  with k have "k div 2 ^ level < 2 ^ level" by (simp add: less_mult_imp_div_less)
  moreover have "k mod 2 ^ level < 2 ^ level" by simp
  moreover have "k = k div 2 ^ level * 2 ^ level + k mod 2 ^ level" 
    by (rule div_mult_mod_eq [symmetric])
  hence "i = node_index level (k mod 2 ^ level) (k div 2 ^ level)" 
    using assms(1) unfolding node_index_def k_def by linarith
  ultimately show ?thesis by blast
qed

lemma calculate_node_index_low:
  assumes "level \<le> 15" "col < 2 ^ level" "row < 2 ^ level"
  shows "calculate_node_index level col row = Inr (node_index level col row)"
proof -
  have l: "level < 31" using assms by simp
  have p: "shl1_int (int level) = Inr (2 ^ level)" by (rule shl1_int_small [OF l])
  have c: "int col < 2 ^ level" "int row < 2 ^ level" 
    using assms(2,3) by (metis of_nat_less_iff of_nat_numeral of_nat_power)+
  have "(2::nat) ^ level \<le> 2 ^ 15" using assms by (intro power_increasing) auto
  hence b: "row < 2 ^ 15" "col < 2 ^ 15" "(2::nat) ^ level \<le> 32768" using assms by simp_all
  have "row * 2 ^ level \<le> 2 ^ 15 * 2 ^ 15" using b by (intro mult_mono) auto
  hence rb: "row * 2 ^ level \<le> 2 ^ 30" by simp
  hence s: "shl_size_t row level = Inr (row * 2 ^ level)" using assms(1) by (simp add: shl_size_t_def)
  have a: "add_size_t (add_size_t (level_start level) (row * 2 ^ level)) col = node_index level col row"
    using level_start_bound [OF assms(1)] rb b by (simp add: add_size_t_def node_index_def)
  show ?thesis
    unfolding calculate_node_index_def
    using p c calculate_number_nodes_low [OF assms(1)] s a by simp
qed

lemma calculate_node_index_high:
  "16 \<le> level \<Longrightarrow> (\<exists>e. calculate_node_index level col row = Inl e)"
  by (auto simp: calculate_node_index_def calculate_number_nodes_high split: sum.splits)

text \<open>
  C8, as amended. \<open>calculate_number_nodes level\<close> is \<open>(4 ^ level - 1) div 3\<close> for every
  level from 0 to 15, and there the count of level \<open>level + 1\<close> exceeds it by
  \<open>4 ^ level\<close> (for \<open>level < 15\<close>, where both are computed). From level 16 on the shift
  \<^verbatim>\<open>1 << (2 * level)\<close> on \<^verbatim>\<open>int\<close> is undefined and no count is returned.
\<close>

theorem calculate_number_nodes_closed_form:
  "(level \<le> 15 \<longrightarrow> calculate_number_nodes level = Inr ((4 ^ level - 1) div 3)) \<and>
   (level < 15 \<longrightarrow>
      (\<exists>a b. calculate_number_nodes (level + 1) = Inr a \<and> calculate_number_nodes level = Inr b \<and>
             b \<le> a \<and> a - b = 4 ^ level)) \<and>
   (16 \<le> level \<longrightarrow> calculate_number_nodes level = Inl Undefined_Behaviour)"
proof (intro conjI impI)
  assume "level \<le> 15"
  then show "calculate_number_nodes level = Inr ((4 ^ level - 1) div 3)"
    by (simp add: calculate_number_nodes_low level_start_def)
next
  assume l: "level < 15"
  then have "calculate_number_nodes (level + 1) = Inr (level_start (Suc level))"
    and "calculate_number_nodes level = Inr (level_start level)"
    by (simp_all add: calculate_number_nodes_low)
  then show "\<exists>a b. calculate_number_nodes (level + 1) = Inr a \<and>
      calculate_number_nodes level = Inr b \<and> b \<le> a \<and> a - b = 4 ^ level"
    by (simp add: level_start_Suc)
next
  assume "16 \<le> level"
  then show "calculate_number_nodes level = Inl Undefined_Behaviour"
    by (rule calculate_number_nodes_high)
qed

theorem calculate_number_nodes_closed_form_witness:
  "calculate_number_nodes 3 = Inr 21 \<and> calculate_number_nodes 4 = Inr 85 \<and>
   calculate_number_nodes 200 = Inl Undefined_Behaviour"
  using calculate_number_nodes_closed_form [of 3] calculate_number_nodes_closed_form [of 4]
    calculate_number_nodes_closed_form [of 200]
  by simp

text \<open>
  C8 as stated fails at level 16, a value of \<^verbatim>\<open>uint8_t\<close>: the code returns no count.
\<close>

theorem calculate_number_nodes_level_16:
  "calculate_number_nodes 16 \<noteq> Inr ((4 ^ 16 - 1) div 3)"
  by (simp add: calculate_number_nodes_def shl1_int_def)

text \<open>
  C4, as amended. For every level from 0 to 15 and all columns and rows below
  \<open>2 ^ level\<close>: \<open>calculate_node_index\<close> returns the count of the level plus
  \<open>row * 2 ^ level + col\<close> (the value of \<^verbatim>\<open>row << level\<close>); two such triples with the
  same index are the same triple; and the indices of one level are exactly the
  \<open>4 ^ level\<close> numbers from the count of the level on, which end at the count of the
  next level where that is computed. From level 16 on no index is returned, whatever
  the column and row: the call ends in a failed \<^verbatim>\<open>Expects\<close> or in undefined behaviour,
  and for the levels 16 to 30 with column and row below \<open>2 ^ level\<close> it is the undefined
  shift \<^verbatim>\<open>1 << (2 * level)\<close> of \<open>calculate_number_nodes\<close>.
\<close>

theorem calculate_node_index_layout:
  "(level \<le> 15 \<longrightarrow>
     (\<exists>n. calculate_number_nodes level = Inr n \<and>
       (\<forall>col row. col < 2 ^ level \<and> row < 2 ^ level \<longrightarrow>
          calculate_node_index level col row = Inr (n + row * 2 ^ level + col)) \<and>
       (\<forall>col row level' col' row'.
          col < 2 ^ level \<and> row < 2 ^ level \<and> level' \<le> 15 \<and> col' < 2 ^ level' \<and> row' < 2 ^ level' \<and>
          calculate_node_index level col row = calculate_node_index level' col' row'
          \<longrightarrow> level = level' \<and> col = col' \<and> row = row') \<and>
       {i. \<exists>col row. col < 2 ^ level \<and> row < 2 ^ level \<and> calculate_node_index level col row = Inr i}
         = {n ..< n + 4 ^ level} \<and>
       (level < 15 \<longrightarrow> calculate_number_nodes (level + 1) = Inr (n + 4 ^ level)))) \<and>
   (16 \<le> level \<longrightarrow>
     (\<forall>col row.
        (\<exists>e. calculate_node_index level col row = Inl e) \<and>
        (level \<le> 30 \<and> col < 2 ^ level \<and> row < 2 ^ level \<longrightarrow>
           calculate_node_index level col row = Inl Undefined_Behaviour)))"
proof (intro conjI impI)
  assume l15: "level \<le> 15"
  show "\<exists>n. calculate_number_nodes level = Inr n \<and>
       (\<forall>col row. col < 2 ^ level \<and> row < 2 ^ level \<longrightarrow>
          calculate_node_index level col row = Inr (n + row * 2 ^ level + col)) \<and>
       (\<forall>col row level' col' row'.
          col < 2 ^ level \<and> row < 2 ^ level \<and> level' \<le> 15 \<and> col' < 2 ^ level' \<and> row' < 2 ^ level' \<and>
          calculate_node_index level col row = calculate_node_index level' col' row'
          \<longrightarrow> level = level' \<and> col = col' \<and> row = row') \<and>
       {i. \<exists>col row. col < 2 ^ level \<and> row < 2 ^ level \<and> calculate_node_index level col row = Inr i}
         = {n ..< n + 4 ^ level} \<and>
       (level < 15 \<longrightarrow> calculate_number_nodes (level + 1) = Inr (n + 4 ^ level))"
  proof (intro exI [of _ "level_start level"] conjI allI impI)
    show "calculate_number_nodes level = Inr (level_start level)"
      using l15 by (rule calculate_number_nodes_low)
  next
    fix col row :: nat
    assume "col < 2 ^ level \<and> row < 2 ^ level"
    then show "calculate_node_index level col row = Inr (level_start level + row * 2 ^ level + col)"
      using l15 by (simp add: calculate_node_index_low node_index_def)
  next
    fix col row level' col' row' :: nat
    assume a: "col < 2 ^ level \<and> row < 2 ^ level \<and> level' \<le> 15 \<and> col' < 2 ^ level' \<and>
      row' < 2 ^ level' \<and> calculate_node_index level col row = calculate_node_index level' col' row'"
    have "calculate_node_index level col row = Inr (node_index level col row)"
      using a l15 by (intro calculate_node_index_low) simp_all
    moreover have "calculate_node_index level' col' row' = Inr (node_index level' col' row')"
      using a by (intro calculate_node_index_low) simp_all
    ultimately have "node_index level col row = node_index level' col' row'"
      using a by simp
    with a show "level = level'" "col = col'" "row = row'"
      using node_index_inj [of col level row col' level' row'] by simp_all
  next
    show "{i. \<exists>col row. col < 2 ^ level \<and> row < 2 ^ level \<and> calculate_node_index level col row = Inr i}
         = {level_start level ..< level_start level + 4 ^ level}" (is "?A = ?B")
    proof (intro set_eqI iffI)
      fix i assume "i \<in> ?A"
      then obtain col row where c: "col < 2 ^ level" "row < 2 ^ level"
        and "calculate_node_index level col row = Inr i" by blast
      then have "i = node_index level col row" using l15 by (simp add: calculate_node_index_low)
      then show "i \<in> ?B" using node_index_range [OF c] by (simp add: level_start_Suc)
    next
      fix i assume "i \<in> ?B"
      then obtain col row where c: "col < 2 ^ level" "row < 2 ^ level" "i = node_index level col row"
        using node_index_surj [of level i] by (auto simp: level_start_Suc)
      then have "calculate_node_index level col row = Inr i"
        using l15 by (simp add: calculate_node_index_low)
      with c show "i \<in> ?A" by blast
    qed
  next
    assume "level < 15"
    then show "calculate_number_nodes (level + 1) = Inr (level_start level + 4 ^ level)"
      by (simp add: calculate_number_nodes_low level_start_Suc)
  qed
next
  assume h: "16 \<le> level"
  show "\<forall>col row.
        (\<exists>e. calculate_node_index level col row = Inl e) \<and>
        (level \<le> 30 \<and> col < 2 ^ level \<and> row < 2 ^ level \<longrightarrow>
           calculate_node_index level col row = Inl Undefined_Behaviour)"
  proof (intro allI conjI impI)
    fix col row :: nat
    show "\<exists>e. calculate_node_index level col row = Inl e"
      using h by (rule calculate_node_index_high)
  next
    fix col row :: nat
    assume a: "level \<le> 30 \<and> col < 2 ^ level \<and> row < 2 ^ level"
    then have "level < 31" by simp
    then have p: "shl1_int (int level) = Inr (2 ^ level)" by (rule shl1_int_small)
    have c: "int col < 2 ^ level" "int row < 2 ^ level"
      using a by (metis of_nat_less_iff of_nat_numeral of_nat_power)+
    show "calculate_node_index level col row = Inl Undefined_Behaviour"
      unfolding calculate_node_index_def using p c calculate_number_nodes_high [OF h] by simp
  qed
qed

theorem calculate_node_index_layout_witness:
  "calculate_number_nodes 1 = Inr 1 \<and> calculate_node_index 1 1 1 = Inr 4 \<and>
   {i. \<exists>col row. col < 2 \<and> row < 2 \<and> calculate_node_index 1 col row = Inr i} = {1 ..< 5} \<and>
   calculate_number_nodes 2 = Inr 5 \<and>
   calculate_node_index 20 3 5 = Inl Undefined_Behaviour \<and>
   (\<exists>e. calculate_node_index 31 0 0 = Inl e)"
proof -
  from calculate_node_index_layout [of 1]
  obtain n where n: "calculate_number_nodes 1 = Inr n"
    and i: "\<forall>col row. col < 2 ^ 1 \<and> row < 2 ^ 1 \<longrightarrow>
        calculate_node_index 1 col row = Inr (n + row * 2 ^ 1 + col)"
    and s: "{i. \<exists>col row. col < 2 ^ 1 \<and> row < 2 ^ 1 \<and> calculate_node_index 1 col row = Inr i}
       = {n ..< n + 4 ^ 1}"
    and m: "(1::nat) < 15 \<longrightarrow> calculate_number_nodes (1 + 1) = Inr (n + 4 ^ 1)"
    by auto
  have "calculate_number_nodes 1 = Inr 1"
    by (simp add: calculate_number_nodes_def shl1_int_def sub_int_def div_int_def size_t_of_int_def)
  with n have n1: "n = 1" by simp
  from i have k: "calculate_node_index 1 1 1 = Inr (n + 1 * 2 ^ 1 + 1)" by simp
  have "(16::nat) \<le> 20" "(20::nat) \<le> 30 \<and> (3::nat) < 2 ^ 20 \<and> (5::nat) < 2 ^ 20" by simp_all
  with calculate_node_index_layout [of 20]
  have u: "calculate_node_index 20 3 5 = Inl Undefined_Behaviour" by blast
  have "(16::nat) \<le> 31" by simp
  with calculate_node_index_layout [of 31]
  have e: "\<exists>e. calculate_node_index 31 0 0 = Inl e" by blast
  from k n n1 s m u e show ?thesis by (simp add: numeral_2_eq_2 [symmetric])
qed

text \<open>
  C4 as stated fails at level 16: column 0 and row 0 are in range, and no index is
  returned.
\<close>

theorem calculate_node_index_level_16:
  "(0::nat) < 2 ^ 16 \<and> calculate_node_index 16 0 0 = Inl Undefined_Behaviour"
  by (simp add: calculate_node_index_def calculate_number_nodes_def shl1_int_def)

section \<open>Subtrees and writes\<close>

subsection \<open>Subtrees of cells\<close>

lemma in_subtree_same_level:
  "in_subtree l c r l c' r' \<longleftrightarrow> c' = c \<and> r' = r"
  by (simp add: in_subtree_def)

lemma in_subtree_level: "in_subtree l c r l' c' r' \<Longrightarrow> l \<le> l'"
  by (simp add: in_subtree_def)

lemma quadrant_decode:
  "(\<exists>k<4. a = quadrant_col c k \<and> b = quadrant_row r k) \<longleftrightarrow> a div 2 = c \<and> b div 2 = r"
proof
  assume "\<exists>k<4. a = quadrant_col c k \<and> b = quadrant_row r k"
  then obtain k where k: "k < 4" and a: "a = 2 * c + k mod 2" and b: "b = 2 * r + k div 2"
    by (auto simp: quadrant_col_def quadrant_row_def)
  have "k div 2 < 2" using k by simp
  then have "b div 2 = r" unfolding b by simp
  moreover have "a div 2 = c" unfolding a by simp
  ultimately show "a div 2 = c \<and> b div 2 = r" by simp
next
  assume h: "a div 2 = c \<and> b div 2 = r"
  define k where "k = a mod 2 + 2 * (b mod 2)"
  have m: "a mod 2 < 2" "b mod 2 < 2" by simp_all
  have "k < 4" unfolding k_def using m by linarith
  moreover have "k mod 2 = a mod 2" unfolding k_def by simp
  moreover have "k div 2 = b mod 2" unfolding k_def by simp
  moreover have "a = 2 * (a div 2) + a mod 2" "b = 2 * (b div 2) + b mod 2" by simp_all
  ultimately have "k < 4 \<and> a = quadrant_col c k \<and> b = quadrant_row r k"
    using h by (simp add: quadrant_col_def quadrant_row_def)
  then show "\<exists>k<4. a = quadrant_col c k \<and> b = quadrant_row r k" by blast
qed

lemma quadrant_inj:
  assumes "k < 4" "k' < 4" "quadrant_col c k = quadrant_col c k'"
    "quadrant_row r k = quadrant_row r k'"
  shows "k = k'"
proof -
  have "k mod 2 = k' mod 2" "k div 2 = k' div 2"
    using assms(3,4) by (simp_all add: quadrant_col_def quadrant_row_def)
  then show ?thesis by (metis mult_div_mod_eq)
qed

lemma in_subtree_step:
  assumes "l < l'"
  shows "in_subtree l c r l' c' r' \<longleftrightarrow>
    (\<exists>k<4. in_subtree (Suc l) (quadrant_col c k) (quadrant_row r k) l' c' r')"
proof -
  have e: "(2::nat) ^ (l' - l) = 2 ^ (l' - Suc l) * 2"
    using assms by (metis Suc_diff_Suc power_Suc2)
  have d: "\<And>x::nat. x div 2 ^ (l' - l) = x div 2 ^ (l' - Suc l) div 2"
    unfolding e by (simp add: div_mult2_eq)
  show ?thesis
    using assms quadrant_decode [of "c' div 2 ^ (l' - Suc l)" c "r' div 2 ^ (l' - Suc l)" r]
    by (auto simp: in_subtree_def d)
qed

lemma in_subtree_cases:
  "in_subtree l c r l' c' r' \<longleftrightarrow>
     (l' = l \<and> c' = c \<and> r' = r) \<or>
     (l < l' \<and> (\<exists>k<4. in_subtree (Suc l) (quadrant_col c k) (quadrant_row r k) l' c' r'))"
proof (cases "l < l'")
  case True
  then show ?thesis using in_subtree_step [OF True] by auto
next
  case False
  then show ?thesis by (auto simp: in_subtree_def)
qed

lemma in_subtree_quadrant_unique:
  assumes "in_subtree (Suc l) (quadrant_col c k) (quadrant_row r k) l' c' r'"
    and "in_subtree (Suc l) (quadrant_col c k') (quadrant_row r k') l' c' r'"
    and "k < 4" "k' < 4"
  shows "k = k'"
  using assms by (intro quadrant_inj [of k k' c r]) (auto simp: in_subtree_def)

lemma quadrant_valid:
  assumes "col < 2 ^ level" "row < 2 ^ level" "i < 4"
  shows "quadrant_col col i < 2 ^ Suc level" "quadrant_row row i < 2 ^ Suc level"
proof -
  have "i mod 2 < 2" "i div 2 < 2" using assms(3) by auto
  then show "quadrant_col col i < 2 ^ Suc level" "quadrant_row row i < 2 ^ Suc level"
    using assms(1,2) by (simp_all add: quadrant_col_def quadrant_row_def)
qed

subsection \<open>Writes\<close>

lemma same_header_refl: "same_header tree tree"
  by (simp add: same_header_def)

lemma same_header_trans: "same_header a b \<Longrightarrow> same_header b c \<Longrightarrow> same_header a c"
  by (simp add: same_header_def)

lemma same_header_write_bbox: "same_header tree (write_bbox tree this b)"
  by (simp add: same_header_def write_bbox_def)

lemma same_header_write_child: "same_header tree (write_child tree this i p)"
  by (simp add: same_header_def write_child_def)

lemma node_box_same_header: "same_header tree tree' \<Longrightarrow> node_box E tree' = node_box E tree"
  by (intro ext) (simp add: same_header_def node_box_def)

lemma initialized_node_same_header:
  "same_header tree tree' \<Longrightarrow> initialized_node E tree' = initialized_node E tree"
  by (intro ext) (simp add: initialized_node_def node_box_same_header, simp add: same_header_def)

lemma nth_write_bbox:
  "node_array (write_bbox tree this b) ! j =
     (if j = this \<and> this < length (node_array tree) then (node_array tree ! this)\<lparr>bbox := b\<rparr>
      else node_array tree ! j)"
  by (cases "this < length (node_array tree)") (auto simp: write_bbox_def nth_list_update list_update_beyond not_less)

lemma nth_write_child:
  "node_array (write_child tree this i p) ! j =
     (if j = this \<and> this < length (node_array tree)
      then (node_array tree ! this)\<lparr>children := (children (node_array tree ! this))[i := p]\<rparr>
      else node_array tree ! j)"
  by (cases "this < length (node_array tree)") (auto simp: write_child_def nth_list_update list_update_beyond not_less)

lemma link_children_step:
  "i < 4 \<Longrightarrow> link_children l c r i cs =
     link_children l c r (Suc i) (cs[i := Some (quadrant_index l c r i)])"
  by (simp add: link_children_def upt_rec [of i 4])

lemma link_children_done: "link_children l c r 4 cs = cs"
  by (simp add: link_children_def)

section \<open>The effect of initialize\<close>

lemma slot_bits: "(i::nat) < 4 \<Longrightarrow> and i 1 = i mod 2 \<and> drop_bit 1 (and i 2) = i div 2"
proof -
  assume "i < 4"
  then consider "i = 0" | "i = 1" | "i = 2" | "i = 3" by linarith
  then show ?thesis by cases (simp_all add: and_one_eq drop_bit_eq_div)
qed

lemma uint16_t_of_int_small: "n < 2 ^ 16 \<Longrightarrow> uint16_t_of_int (int n) = n"
  by (simp add: uint16_t_of_int_def nat_mod_distrib)

lemma uint8_t_of_int_small: "n < 2 ^ 8 \<Longrightarrow> uint8_t_of_int (int n) = n"
  by (simp add: uint8_t_of_int_def nat_mod_distrib)

lemma pow_le_15: "l \<le> 15 \<Longrightarrow> (2::nat) ^ l \<le> 2 ^ 15"
  by (intro power_increasing) auto

lemma valid_cell_index_less:
  assumes "valid_cell d l c r"
  shows "node_index l c r < level_start d"
proof -
  have "node_index l c r < level_start (Suc l)"
    using assms by (intro node_index_range) (simp_all add: valid_cell_def)
  also have "\<dots> \<le> level_start d"
    using assms by (intro level_start_mono) (simp add: valid_cell_def)
  finally show ?thesis .
qed

lemma valid_cell_quadrant:
  assumes "valid_cell d l c r" "Suc l < d" "i < 4"
  shows "valid_cell d (Suc l) (quadrant_col c i) (quadrant_row r i)"
  using assms quadrant_valid [of c l r i] by (simp add: valid_cell_def)

lemma valid_cell_index_inj:
  assumes "valid_cell d l c r" "valid_cell d l' c' r'" "node_index l c r = node_index l' c' r'"
  shows "l = l' \<and> c = c' \<and> r = r'"
  using assms node_index_inj [of c l r c' l' r'] by (simp add: valid_cell_def)

lemma Node_initialize_children_unfold:
  assumes d: "d \<le> 15" and v: "valid_cell d l c r" and sl: "Suc l < d" and i: "i < 4"
    and len: "length (node_array tree) = level_start d"
  shows "Node_initialize_children E tree this (Suc l) c r i =
    (case Node_initialize E (write_child tree this i (Some (quadrant_index l c r i)))
            (quadrant_index l c r i) (Suc l) (quadrant_col c i) (quadrant_row r i) of
       Inl e \<Rightarrow> Inl e
     | Inr tree2 \<Rightarrow> Node_initialize_children E tree2 this (Suc l) c r (Suc i))"
proof -
  have vq: "valid_cell d (Suc l) (quadrant_col c i) (quadrant_row r i)"
    using v sl i by (rule valid_cell_quadrant)
  have l15: "Suc l \<le> 15" using d sl by simp
  have "(2::nat) ^ Suc l \<le> 2 ^ 15" using l15 by (rule pow_le_15)
  then have small: "quadrant_col c i < 2 ^ 16" "quadrant_row r i < 2 ^ 16"
    using vq by (simp_all add: valid_cell_def)
  have cc: "uint16_t_of_int (2 * int c + int (and i 1)) = quadrant_col c i"
    using uint16_t_of_int_small [OF small(1)] slot_bits [OF i] by (simp add: quadrant_col_def)
  have cr: "uint16_t_of_int (2 * int r + int (drop_bit 1 (and i 2))) = quadrant_row r i"
    using uint16_t_of_int_small [OF small(2)] slot_bits [OF i] by (simp add: quadrant_row_def)
  have ci: "calculate_node_index (Suc l) (quadrant_col c i) (quadrant_row r i)
      = Inr (quadrant_index l c r i)"
    using vq l15 by (simp add: calculate_node_index_low valid_cell_def quadrant_index_def)
  have lt: "quadrant_index l c r i < length (node_array tree)"
    using valid_cell_index_less [OF vq] len by (simp add: quadrant_index_def)
  have nlt: "\<not> length (node_array tree) \<le> quadrant_index l c r i" using lt by simp
  show ?thesis
    apply (subst Node_initialize_children.simps)
    apply (simp only: i if_True Let_def cc cr ci sum.case nlt if_False Suc_eq_plus1 [symmetric])
    done
qed

lemma Node_initialize_children_post:
  fixes E :: "('t, 'f::{plus,times}) traits"
  assumes IH: "\<And>(tree :: ('t, 'f) QuadTree) c' r'. tree_depth tree = d \<Longrightarrow>
       length (node_array tree) = level_start d \<Longrightarrow> valid_cell d (Suc l) c' r' \<Longrightarrow>
       \<exists>tree'. Node_initialize E tree (node_index (Suc l) c' r') (Suc l) c' r' = Inr tree' \<and>
              initialized_subtree E tree tree' (Suc l) c' r'"
    and d: "d \<le> 15" and v: "valid_cell d l c r" and sl: "Suc l < d"
  shows "i \<le> 4 \<Longrightarrow> tree_depth tree = d \<Longrightarrow> length (node_array tree) = level_start d \<Longrightarrow>
    \<exists>tree'. Node_initialize_children E tree (node_index l c r) (Suc l) c r i = Inr tree' \<and>
           initialized_children E tree tree' l c r i"
proof (induction "4 - i" arbitrary: i tree)
  case 0
  then have i: "i = 4" by simp
  have "Node_initialize_children E tree (node_index l c r) (Suc l) c r 4 = Inr tree"
    by (subst Node_initialize_children.simps) simp
  moreover have "initialized_children E tree tree l c r 4"
    by (auto simp: initialized_children_def same_header_refl link_children_done)
  ultimately show ?case using i by blast
next
  case (Suc n)
  then have i: "i < 4" by simp
  let ?self = "node_index l c r"
  let ?qi = "quadrant_index l c r i"
  let ?qc = "quadrant_col c i"
  let ?qr = "quadrant_row r i"
  let ?tree1 = "write_child tree ?self i (Some ?qi)"
  have vq: "valid_cell d (Suc l) ?qc ?qr" using v sl i by (rule valid_cell_quadrant)
  have this_lt: "?self < length (node_array tree)"
    using valid_cell_index_less [OF v] Suc.prems by simp
  have h1: "same_header tree ?tree1" by (rule same_header_write_child)
  then have hd1: "tree_depth ?tree1 = d" "length (node_array ?tree1) = level_start d"
    using Suc.prems by (simp_all add: same_header_def)
  from IH [OF hd1 vq] obtain tree2
    where r2: "Node_initialize E ?tree1 ?qi (Suc l) ?qc ?qr = Inr tree2"
      and p2: "initialized_subtree E ?tree1 tree2 (Suc l) ?qc ?qr"
    by (auto simp: quadrant_index_def)
  have h2: "same_header ?tree1 tree2" using p2 by (simp add: initialized_subtree_def)
  then have hd2: "tree_depth tree2 = d" "length (node_array tree2) = level_start d"
    using hd1 by (simp_all add: same_header_def)
  have n: "n = 4 - Suc i" using Suc.hyps(2) by simp
  have i4: "Suc i \<le> 4" using i by simp
  from Suc.hyps(1) [OF n i4 hd2] obtain tree'
    where r3: "Node_initialize_children E tree2 ?self (Suc l) c r (Suc i) = Inr tree'"
      and p3: "initialized_children E tree2 tree' l c r (Suc i)"
    by blast
  have run: "Node_initialize_children E tree ?self (Suc l) c r i = Inr tree'"
    using Node_initialize_children_unfold [OF d v sl i Suc.prems(3), of E ?self] r2 r3 by simp
  have h02: "same_header tree tree2" using h1 h2 by (rule same_header_trans)
  have h3: "same_header tree2 tree'" using p3 by (simp add: initialized_children_def)
  have h03: "same_header tree tree'" using h02 h3 by (rule same_header_trans)
  have W1: "initialized_node E ?tree1 = initialized_node E tree"
    using h1 by (rule initialized_node_same_header)
  have W2: "initialized_node E tree2 = initialized_node E tree"
    using h02 by (rule initialized_node_same_header)
  have post: "node_array tree' ! node_index l' c' r' =
          (if l' = l \<and> c' = c \<and> r' = r
           then (node_array tree ! node_index l' c' r')
                  \<lparr>children := link_children l c r i
                                 (children (node_array tree ! node_index l' c' r'))\<rparr>
           else if \<exists>k. i \<le> k \<and> k < 4 \<and>
                     in_subtree (Suc l) (quadrant_col c k) (quadrant_row r k) l' c' r'
           then initialized_node E tree l' c' r' (node_array tree ! node_index l' c' r')
           else node_array tree ! node_index l' c' r')"
    if vp: "valid_cell d l' c' r'" for l' c' r'
  proof -
    let ?j = "node_index l' c' r'"
    have vp2: "valid_cell (tree_depth tree2) l' c' r'" using vp hd2 by simp
    have vp1: "valid_cell (tree_depth ?tree1) l' c' r'" using vp hd1 by simp
    from p3 vp2 have "node_array tree' ! ?j =
          (if l' = l \<and> c' = c \<and> r' = r
           then (node_array tree2 ! ?j)
                  \<lparr>children := link_children l c r (Suc i) (children (node_array tree2 ! ?j))\<rparr>
           else if \<exists>k. Suc i \<le> k \<and> k < 4 \<and>
                     in_subtree (Suc l) (quadrant_col c k) (quadrant_row r k) l' c' r'
           then initialized_node E tree2 l' c' r' (node_array tree2 ! ?j)
           else node_array tree2 ! ?j)"
      unfolding initialized_children_def by blast
    then have e3: "node_array tree' ! ?j =
          (if l' = l \<and> c' = c \<and> r' = r
           then (node_array tree2 ! ?j)
                  \<lparr>children := link_children l c r (Suc i) (children (node_array tree2 ! ?j))\<rparr>
           else if \<exists>k. Suc i \<le> k \<and> k < 4 \<and>
                     in_subtree (Suc l) (quadrant_col c k) (quadrant_row r k) l' c' r'
           then initialized_node E tree l' c' r' (node_array tree2 ! ?j)
           else node_array tree2 ! ?j)"
      by (simp only: W2)
    from p2 vp1 have "node_array tree2 ! ?j =
          (if in_subtree (Suc l) ?qc ?qr l' c' r'
           then initialized_node E ?tree1 l' c' r' (node_array ?tree1 ! ?j)
           else node_array ?tree1 ! ?j)"
      unfolding initialized_subtree_def by blast
    then have e2: "node_array tree2 ! ?j =
          (if in_subtree (Suc l) ?qc ?qr l' c' r'
           then initialized_node E tree l' c' r' (node_array ?tree1 ! ?j)
           else node_array ?tree1 ! ?j)"
      by (simp only: W1)
    have e1: "node_array ?tree1 ! ?j =
          (if l' = l \<and> c' = c \<and> r' = r
           then (node_array tree ! ?j)\<lparr>children := (children (node_array tree ! ?j))[i := Some ?qi]\<rparr>
           else node_array tree ! ?j)"
      using valid_cell_index_inj [OF vp v] this_lt by (auto simp: nth_write_child)
    show ?thesis
    proof (cases "l' = l \<and> c' = c \<and> r' = r")
      case True
      then have "\<not> in_subtree (Suc l) ?qc ?qr l' c' r'"
        using in_subtree_level [of "Suc l" ?qc ?qr l' c' r'] by auto
      note e2' = e2 [unfolded if_not_P [OF this]]
      note e1' = e1 [unfolded if_P [OF True]]
      note e3' = e3 [unfolded if_P [OF True]]
      show ?thesis
        unfolding if_P [OF True] e3' e2' e1' using link_children_step [OF i, of l c r] by simp
    next
      case False
      note e1' = e1 [unfolded if_not_P [OF False]]
      note e3' = e3 [unfolded if_not_P [OF False]]
      show ?thesis
      proof (cases "in_subtree (Suc l) ?qc ?qr l' c' r'")
        case here: True
        have nk: "\<not> (\<exists>k. Suc i \<le> k \<and> k < 4 \<and>
                     in_subtree (Suc l) (quadrant_col c k) (quadrant_row r k) l' c' r')"
          using in_subtree_quadrant_unique [OF here _ i] by fastforce
        have ex: "\<exists>k. i \<le> k \<and> k < 4 \<and>
                     in_subtree (Suc l) (quadrant_col c k) (quadrant_row r k) l' c' r'"
          using here i by auto
        show ?thesis
          unfolding if_not_P [OF False] if_P [OF ex] e3' if_not_P [OF nk] e2 if_P [OF here] e1'
          by (rule refl)
      next
        case nothere: False
        have eq: "(\<exists>k. i \<le> k \<and> k < 4 \<and>
                     in_subtree (Suc l) (quadrant_col c k) (quadrant_row r k) l' c' r')
          \<longleftrightarrow> (\<exists>k. Suc i \<le> k \<and> k < 4 \<and>
                     in_subtree (Suc l) (quadrant_col c k) (quadrant_row r k) l' c' r')"
          using nothere by (metis Suc_leI le_neq_implies_less Suc_leD)
        show ?thesis
          unfolding if_not_P [OF False] eq e3' e2 if_not_P [OF nothere] e1'
          by (rule refl)
      qed
    qed
  qed
  have "initialized_children E tree tree' l c r i"
    unfolding initialized_children_def using h03 post Suc.prems(2) by simp
  with run show ?case by blast
qed

lemma Node_initialize_unfold:
  fixes E :: "('t, 'f::{plus,times}) traits"
  assumes d: "tree_depth tree = d" "d \<le> 15" and v: "valid_cell d l c r"
    and lt: "this < length (node_array tree)"
  shows "Node_initialize E tree this l c r =
    (if Suc l < d
     then Node_initialize_children E (write_bbox tree this (node_box E tree l c r)) this (Suc l) c r 0
     else Inr (write_bbox tree this (node_box E tree l c r)))"
proof -
  have l: "l < d" "c < 2 ^ l" "r < 2 ^ l" using v by (simp_all add: valid_cell_def)
  have l31: "l < 31" using l(1) d(2) by simp
  have p: "shl1_int (int l) = Inr (2 ^ l)" by (rule shl1_int_small [OF l31])
  have c: "int c < 2 ^ l" "int r < 2 ^ l"
    using l(2,3) by (metis of_nat_less_iff of_nat_numeral of_nat_power)+
  have ie: "int (tree_depth tree) - 1 - int l = int (d - 1 - l)" using l(1) d(1) by linarith
  have "d - 1 - l < 31" using d(2) by simp
  then have lf: "shl1_int (int (tree_depth tree) - 1 - int l) = Inr (2 ^ (d - 1 - l))"
    unfolding ie by (rule shl1_int_small)
  have "Suc l < 2 ^ 8" using l31 by simp
  then have "uint8_t_of_int (int (Suc l)) = Suc l" by (rule uint8_t_of_int_small)
  then have cl: "uint8_t_of_int (int l + 1) = Suc l" by (simp add: add.commute)
  have nlt: "\<not> length (node_array tree) \<le> this" using lt by simp
  have td: "tree_depth (write_bbox tree this b) = d" for b
    using d(1) by (simp add: write_bbox_def)
  have nc: "\<not> \<not> (int c < 2 ^ l \<and> int r < 2 ^ l)" using c by simp
  show ?thesis
    apply (subst Node_initialize.simps)
    apply (simp only: nlt if_False p sum.case nc lf Let_def cl td)
    apply (simp only: node_box_def Let_def d(1))
    done
qed

lemma initialized_node_leaf:
  "\<not> Suc l < tree_depth tree \<Longrightarrow>
   initialized_node E tree l c r node = node\<lparr>bbox := node_box E tree l c r\<rparr>"
  by (simp add: initialized_node_def)

lemma initialized_node_inner:
  "Suc l < tree_depth tree \<Longrightarrow>
   initialized_node E tree l c r node =
     node\<lparr>bbox := node_box E tree l c r, children := link_children l c r 0 (children node)\<rparr>"
  by (simp add: initialized_node_def)

lemma Node_initialize_post:
  fixes E :: "('t, 'f::{plus,times}) traits" and tree :: "('t, 'f) QuadTree"
  assumes d: "d \<le> 15"
  shows "valid_cell d l c r \<Longrightarrow> tree_depth tree = d \<Longrightarrow>
    length (node_array tree) = level_start d \<Longrightarrow>
    \<exists>tree'. Node_initialize E tree (node_index l c r) l c r = Inr tree' \<and>
           initialized_subtree E tree tree' l c r"
proof (induction "d - l" arbitrary: l c r tree)
  case 0
  then show ?case by (simp add: valid_cell_def)
next
  case (Suc n)
  let ?self = "node_index l c r"
  let ?box = "node_box E tree l c r"
  let ?tree1 = "write_bbox tree ?self ?box"
  note v = Suc.prems(1)
  have lt: "?self < length (node_array tree)"
    using valid_cell_index_less [OF v] Suc.prems(3) by simp
  note unf = Node_initialize_unfold [OF Suc.prems(2) d v lt, of E]
  have h1: "same_header tree ?tree1" by (rule same_header_write_bbox)
  then have hd1: "tree_depth ?tree1 = d" "length (node_array ?tree1) = level_start d"
    using Suc.prems by (simp_all add: same_header_def)
  have W1: "initialized_node E ?tree1 = initialized_node E tree"
    using h1 by (rule initialized_node_same_header)
  have e1: "node_array ?tree1 ! node_index l' c' r' =
      (if l' = l \<and> c' = c \<and> r' = r then (node_array tree ! node_index l' c' r')\<lparr>bbox := ?box\<rparr>
       else node_array tree ! node_index l' c' r')"
    if vp: "valid_cell d l' c' r'" for l' c' r'
    using valid_cell_index_inj [OF vp v] lt by (auto simp: nth_write_bbox)
  show ?case
  proof (cases "Suc l < d")
    case leaf: False
    have run: "Node_initialize E tree ?self l c r = Inr ?tree1"
      using unf leaf by simp
    have "node_array ?tree1 ! node_index l' c' r' =
          (if in_subtree l c r l' c' r'
           then initialized_node E tree l' c' r' (node_array tree ! node_index l' c' r')
           else node_array tree ! node_index l' c' r')"
      if vp: "valid_cell d l' c' r'" for l' c' r'
    proof -
      have "l' < d" using vp by (simp add: valid_cell_def)
      then have "in_subtree l c r l' c' r' \<longleftrightarrow> l' = l \<and> c' = c \<and> r' = r"
        using leaf by (auto simp: in_subtree_def)
      then show ?thesis
        using e1 [OF vp] leaf Suc.prems(2) by (auto simp: initialized_node_leaf)
    qed
    then have "initialized_subtree E tree ?tree1 l c r"
      unfolding initialized_subtree_def using h1 Suc.prems(2) by simp
    with run show ?thesis by blast
  next
    case inner: True
    have n: "n = d - Suc l" using Suc.hyps(2) by simp
    have IH: "\<exists>tree'. Node_initialize E t (node_index (Suc l) c' r') (Suc l) c' r' = Inr tree' \<and>
              initialized_subtree E t tree' (Suc l) c' r'"
      if "tree_depth t = d" "length (node_array t) = level_start d" "valid_cell d (Suc l) c' r'"
      for t :: "('t, 'f) QuadTree" and c' r'
      using Suc.hyps(1) [OF n that(3) that(1) that(2)] .
    have z: "(0::nat) \<le> 4" by simp
    from Node_initialize_children_post [OF IH d v inner z hd1]
    obtain tree' where r3: "Node_initialize_children E ?tree1 ?self (Suc l) c r 0 = Inr tree'"
      and p3: "initialized_children E ?tree1 tree' l c r 0"
      by blast
    have run: "Node_initialize E tree ?self l c r = Inr tree'"
      using unf inner r3 by simp
    have h3: "same_header ?tree1 tree'" using p3 by (simp add: initialized_children_def)
    have h03: "same_header tree tree'" using h1 h3 by (rule same_header_trans)
    have "node_array tree' ! node_index l' c' r' =
          (if in_subtree l c r l' c' r'
           then initialized_node E tree l' c' r' (node_array tree ! node_index l' c' r')
           else node_array tree ! node_index l' c' r')"
      if vp: "valid_cell d l' c' r'" for l' c' r'
    proof -
      let ?j = "node_index l' c' r'"
      have vp1: "valid_cell (tree_depth ?tree1) l' c' r'" using vp hd1 by simp
      from p3 vp1 have "node_array tree' ! ?j =
          (if l' = l \<and> c' = c \<and> r' = r
           then (node_array ?tree1 ! ?j)
                  \<lparr>children := link_children l c r 0 (children (node_array ?tree1 ! ?j))\<rparr>
           else if \<exists>k. 0 \<le> k \<and> k < 4 \<and>
                     in_subtree (Suc l) (quadrant_col c k) (quadrant_row r k) l' c' r'
           then initialized_node E ?tree1 l' c' r' (node_array ?tree1 ! ?j)
           else node_array ?tree1 ! ?j)"
        unfolding initialized_children_def by blast
      then have e3: "node_array tree' ! ?j =
          (if l' = l \<and> c' = c \<and> r' = r
           then (node_array ?tree1 ! ?j)
                  \<lparr>children := link_children l c r 0 (children (node_array ?tree1 ! ?j))\<rparr>
           else if \<exists>k<4. in_subtree (Suc l) (quadrant_col c k) (quadrant_row r k) l' c' r'
           then initialized_node E tree l' c' r' (node_array ?tree1 ! ?j)
           else node_array ?tree1 ! ?j)"
        by (simp only: W1 le0 simp_thms)
      show ?thesis
      proof (cases "l' = l \<and> c' = c \<and> r' = r")
        case True
        then have "in_subtree l c r l' c' r'" by (simp add: in_subtree_def)
        then show ?thesis
          using True e3 e1 [OF vp] inner Suc.prems(2) by (simp add: initialized_node_inner)
      next
        case False
        have "in_subtree l c r l' c' r' \<longleftrightarrow>
          (\<exists>k<4. in_subtree (Suc l) (quadrant_col c k) (quadrant_row r k) l' c' r')"
          using in_subtree_cases [of l c r l' c' r'] False in_subtree_level [of "Suc l" _ _ l' c' r']
          by auto
        then show ?thesis
          unfolding e3 if_not_P [OF False] e1 [OF vp] by simp
      qed
    qed
    then have "initialized_subtree E tree tree' l c r"
      unfolding initialized_subtree_def using h03 Suc.prems(2) by simp
    with run show ?thesis by blast
  qed
qed

lemma in_subtree_root: "c < 2 ^ l \<Longrightarrow> r < 2 ^ l \<Longrightarrow> in_subtree 0 0 0 l c r"
  by (simp add: in_subtree_def)

lemma initialize_Inr_depth:
  assumes "initialize E tree box depth = Inr tree'"
  shows "0 < depth \<and> depth \<le> 15"
proof -
  have "0 < depth" using assms by (auto simp: initialize_def split: if_splits)
  moreover have "depth \<le> 15"
  proof (rule ccontr)
    assume "\<not> depth \<le> 15"
    then have "calculate_number_nodes depth = Inl Undefined_Behaviour"
      by (intro calculate_number_nodes_high) simp
    then show False using assms by (auto simp: initialize_def Let_def split: if_splits sum.splits)
  qed
  ultimately show ?thesis by simp
qed

lemma length_resize: "length (resize d xs n) = n"
  by (simp add: resize_def)

lemma resize_Nil: "i < n \<Longrightarrow> resize d [] n ! i = d"
  by (simp add: resize_def)

lemma initialize_post:
  fixes E :: "('t, 'f::{plus,minus,times,inverse}) traits" and tree :: "('t, 'f) QuadTree"
  assumes dp: "0 < depth" "depth \<le> 15"
  shows "\<exists>tree'. initialize E tree box depth = Inr tree' \<and>
     tree_depth tree' = depth \<and> root_bbox tree' = box \<and>
     base_node_size tree' =
       VEC3 (get_x (get_size box) / to_float E (2 ^ (depth - 1))) (get_y (get_size box))
            (get_z (get_size box) / to_float E (2 ^ (depth - 1))) \<and>
     length (node_array tree') = level_start depth \<and>
     (\<forall>l c r. valid_cell depth l c r \<longrightarrow>
        node_array tree' ! node_index l c r =
          initialized_node E tree' l c r
            (resize (Node_init E) (node_array tree) (level_start depth) ! node_index l c r))"
proof -
  define tree3 where "tree3 = tree
      \<lparr>tree_depth := depth, root_bbox := box,
       base_node_size :=
         VEC3 (get_x (get_size box) / to_float E (2 ^ (depth - 1))) (get_y (get_size box))
              (get_z (get_size box) / to_float E (2 ^ (depth - 1))),
       node_array := resize (Node_init E) (node_array tree) (level_start depth)\<rparr>"
  have "depth - 1 < 31" using dp by simp
  then have "shl1_int (int (depth - 1)) = Inr (2 ^ (depth - 1))" by (rule shl1_int_small)
  moreover have "int (depth - 1) = int depth - 1" using dp(1) by simp
  ultimately have p: "shl1_int (int depth - 1) = Inr (2 ^ (depth - 1))" by simp
  have n: "calculate_number_nodes depth = Inr (level_start depth)"
    using dp(2) by (rule calculate_number_nodes_low)
  have run: "initialize E tree box depth = Node_initialize E tree3 0 0 0 0"
    using dp(1) p n by (simp add: initialize_def Let_def tree3_def)
  have hd: "tree_depth tree3 = depth" "length (node_array tree3) = level_start depth"
    by (simp_all add: tree3_def length_resize)
  have v0: "valid_cell depth 0 0 0" using dp(1) by (simp add: valid_cell_def)
  have i0: "node_index 0 0 0 = 0" by (simp add: node_index_def level_start_def)
  from Node_initialize_post [OF dp(2) v0 hd, of E] obtain tree'
    where r: "Node_initialize E tree3 0 0 0 0 = Inr tree'"
      and po: "initialized_subtree E tree3 tree' 0 0 0"
    by (auto simp: i0)
  have h: "same_header tree3 tree'" using po by (simp add: initialized_subtree_def)
  have W: "initialized_node E tree' = initialized_node E tree3"
    using h by (rule initialized_node_same_header)
  have nodes: "node_array tree' ! node_index l c r =
          initialized_node E tree' l c r
            (resize (Node_init E) (node_array tree) (level_start depth) ! node_index l c r)"
    if v: "valid_cell depth l c r" for l c r
  proof -
    have s: "in_subtree 0 0 0 l c r" using v by (simp add: in_subtree_root valid_cell_def)
    have v3: "valid_cell (tree_depth tree3) l c r" using v hd by simp
    from po v3 have "node_array tree' ! node_index l c r =
          (if in_subtree 0 0 0 l c r
           then initialized_node E tree3 l c r (node_array tree3 ! node_index l c r)
           else node_array tree3 ! node_index l c r)"
      unfolding initialized_subtree_def by blast
    then show ?thesis unfolding if_P [OF s] W by (simp add: tree3_def)
  qed
  have "tree_depth tree' = depth" "root_bbox tree' = box"
    "base_node_size tree' =
       VEC3 (get_x (get_size box) / to_float E (2 ^ (depth - 1))) (get_y (get_size box))
            (get_z (get_size box) / to_float E (2 ^ (depth - 1)))"
    "length (node_array tree') = level_start depth"
    using h by (simp_all add: same_header_def tree3_def length_resize)
  with run r nodes show ?thesis by simp
qed

lemma node_box_initialized:
  assumes "tree_depth tree' = depth" "root_bbox tree' = box"
    "base_node_size tree' =
       VEC3 (get_x (get_size box) / to_float E (2 ^ (depth - 1))) (get_y (get_size box))
            (get_z (get_size box) / to_float E (2 ^ (depth - 1)))"
  shows "node_box E tree' level col row = cell_box E box depth level col row"
  using assms by (simp add: node_box_def cell_box_def Let_def VEC3_def get_size_def)

lemma upt_0_4: "[0 ..< 4] = [0, 1, 2, 3]"
  by code_simp

lemma length_4_cases: "length cs = 4 \<Longrightarrow> \<exists>a b c d. cs = [a, b, c, d]"
  by (cases cs; cases "tl cs"; cases "tl (tl cs)"; cases "tl (tl (tl cs))") auto

lemma link_children_all:
  "length cs = 4 \<Longrightarrow> link_children l c r 0 cs =
     [Some (quadrant_index l c r 0), Some (quadrant_index l c r 1),
      Some (quadrant_index l c r 2), Some (quadrant_index l c r 3)]"
proof -
  assume "length cs = 4"
  then obtain a b c' d where "cs = [a, b, c', d]"
    using length_4_cases by blast
  then show ?thesis
    by (simp add: link_children_def upt_0_4)
qed

lemma index_is_cell:
  "i < level_start d \<Longrightarrow> \<exists>l c r. valid_cell d l c r \<and> i = node_index l c r"
proof (induction d)
  case 0
  then show ?case by (simp add: level_start_0)
next
  case (Suc d)
  show ?case
  proof (cases "i < level_start d")
    case True
    from Suc.IH [OF True] show ?thesis by (auto simp: valid_cell_def less_Suc_eq)
  next
    case False
    then have "level_start d \<le> i" by simp
    from node_index_surj [OF this Suc.prems] show ?thesis by (auto simp: valid_cell_def)
  qed
qed

lemma initialized_cell:
  fixes E :: "('t, 'f::{plus,minus,times,inverse}) traits" and tree :: "('t, 'f) QuadTree"
  assumes init: "initialize E tree box depth = Inr tree'" and v: "valid_cell depth level col row"
  shows "tree_depth tree' = depth" "depth \<le> 15" "length (node_array tree') = level_start depth"
    "calculate_node_index level col row = Inr (node_index level col row)"
    "get_node_by_index tree' (node_index level col row)
       = Inr (node_array tree' ! node_index level col row)"
    "bbox (node_array tree' ! node_index level col row) = cell_box E box depth level col row"
    "Suc level < depth \<Longrightarrow> children (node_array tree' ! node_index level col row) =
       link_children level col row 0
         (children (resize (Node_init E) (node_array tree) (level_start depth)
                      ! node_index level col row))"
    "\<not> Suc level < depth \<Longrightarrow> children (node_array tree' ! node_index level col row) =
         children (resize (Node_init E) (node_array tree) (level_start depth)
                      ! node_index level col row)"
    "element (node_array tree' ! node_index level col row) =
         element (resize (Node_init E) (node_array tree) (level_start depth)
                      ! node_index level col row)"
proof -
  have dp: "0 < depth" "depth \<le> 15" using initialize_Inr_depth [OF init] by simp_all
  from initialize_post [OF dp, of E tree box] init
  have td: "tree_depth tree' = depth" and rb: "root_bbox tree' = box"
    and bs: "base_node_size tree' =
       VEC3 (get_x (get_size box) / to_float E (2 ^ (depth - 1))) (get_y (get_size box))
            (get_z (get_size box) / to_float E (2 ^ (depth - 1)))"
    and len: "length (node_array tree') = level_start depth"
    and nodes: "\<forall>l c r. valid_cell depth l c r \<longrightarrow>
        node_array tree' ! node_index l c r =
          initialized_node E tree' l c r
            (resize (Node_init E) (node_array tree) (level_start depth) ! node_index l c r)"
    by auto
  note nb = node_box_initialized [OF td rb bs]
  have nd: "node_array tree' ! node_index level col row =
          initialized_node E tree' level col row
            (resize (Node_init E) (node_array tree) (level_start depth) ! node_index level col row)"
    using nodes v by blast
  show "tree_depth tree' = depth" by fact
  show "depth \<le> 15" by fact
  show "length (node_array tree') = level_start depth" by fact
  show "calculate_node_index level col row = Inr (node_index level col row)"
    using v dp(2) by (intro calculate_node_index_low) (simp_all add: valid_cell_def)
  show "get_node_by_index tree' (node_index level col row)
       = Inr (node_array tree' ! node_index level col row)"
    using valid_cell_index_less [OF v] len by (simp add: get_node_by_index_def)
  show "bbox (node_array tree' ! node_index level col row) = cell_box E box depth level col row"
    unfolding nd by (simp add: initialized_node_def nb)
  show "Suc level < depth \<Longrightarrow> children (node_array tree' ! node_index level col row) =
       link_children level col row 0
         (children (resize (Node_init E) (node_array tree) (level_start depth)
                      ! node_index level col row))"
    unfolding nd by (simp add: initialized_node_def td)
  show "\<not> Suc level < depth \<Longrightarrow> children (node_array tree' ! node_index level col row) =
         children (resize (Node_init E) (node_array tree) (level_start depth)
                      ! node_index level col row)"
    unfolding nd by (simp add: initialized_node_def td)
  show "element (node_array tree' ! node_index level col row) =
         element (resize (Node_init E) (node_array tree) (level_start depth)
                      ! node_index level col row)"
    unfolding nd by (simp add: initialized_node_def)
qed

lemma children_Node_init: "children (Node_init E) = [None, None, None, None]"
  by (simp add: Node_init_def)

text \<open>
  C6. After \<open>initialize\<close> (on a tree in any state), the node found through
  \<open>calculate_node_index\<close> and \<open>get_node_by_index\<close> for a cell \<open>(level, col, row)\<close> of the
  tree has the box derived from the root box alone: with the level factor
  \<open>2 ^ (depth - 1 - level)\<close> and the base cell size (the X and Z extents of the root
  box divided by \<open>2 ^ (depth - 1)\<close>), X runs from the root minimum plus
  \<open>col * level_factor * base_x\<close> to the root minimum plus \<open>(col + 1) * level_factor * base_x\<close>,
  Z likewise with the row, and Y is the Y range of the root box. The products and
  sums are the operations of the coordinate type, in the order of the code.
\<close>

theorem get_bbox_from_root_box:
  fixes E :: "('t, 'f::{plus,minus,times,inverse}) traits" and tree :: "('t, 'f) QuadTree"
  assumes "initialize E tree box depth = Inr tree'"
    and "level < depth" and "col < 2 ^ level" and "row < 2 ^ level"
  shows "\<exists>i node. calculate_node_index level col row = Inr i \<and>
      get_node_by_index tree' i = Inr node \<and>
      get_bbox node = cell_box E box depth level col row \<and>
      get_x (get_min (get_bbox node)) =
        get_x (get_min box) + (to_float E (int col) * to_float E (2 ^ (depth - 1 - level)) *
          ((get_x (get_max box) - get_x (get_min box)) / to_float E (2 ^ (depth - 1)))) \<and>
      get_x (get_max (get_bbox node)) =
        get_x (get_min box) + (to_float E (int col + 1) * to_float E (2 ^ (depth - 1 - level)) *
          ((get_x (get_max box) - get_x (get_min box)) / to_float E (2 ^ (depth - 1)))) \<and>
      get_z (get_min (get_bbox node)) =
        get_z (get_min box) + (to_float E (int row) * to_float E (2 ^ (depth - 1 - level)) *
          ((get_z (get_max box) - get_z (get_min box)) / to_float E (2 ^ (depth - 1)))) \<and>
      get_z (get_max (get_bbox node)) =
        get_z (get_min box) + (to_float E (int row + 1) * to_float E (2 ^ (depth - 1 - level)) *
          ((get_z (get_max box) - get_z (get_min box)) / to_float E (2 ^ (depth - 1)))) \<and>
      get_y (get_min (get_bbox node)) = get_y (get_min box) \<and>
      get_y (get_max (get_bbox node)) = get_y (get_max box)"
proof -
  have v: "valid_cell depth level col row" using assms(2-4) by (simp add: valid_cell_def)
  note c = initialized_cell [OF assms(1) v]
  have "get_bbox (node_array tree' ! node_index level col row)
      = cell_box E box depth level col row"
    using c(6) by (simp add: get_bbox_def)
  then show ?thesis
    using c(4,5) by (simp add: cell_box_def Let_def BBOX3_def VEC3_def)
qed

theorem get_bbox_from_root_box_witness:
  "\<exists>tree'. initialize fixture_traits fixture_tree fixture_root_box 2 = Inr tree' \<and>
     (\<exists>node. calculate_node_index 1 1 0 = Inr 2 \<and> get_node_by_index tree' 2 = Inr node \<and>
        get_bbox node = BBOX3 (VEC3 0 (- 50) (- 100)) (VEC3 100 50 0))"
proof -
  have "(0::nat) < 2" "(2::nat) \<le> 15" by simp_all
  from initialize_post [OF this, of fixture_traits fixture_tree fixture_root_box]
  obtain tree' where i: "initialize fixture_traits fixture_tree fixture_root_box 2 = Inr tree'"
    by blast
  have h: "(1::nat) < 2" "(1::nat) < 2 ^ 1" "(0::nat) < 2 ^ 1" by simp_all
  from get_bbox_from_root_box [OF i h]
  obtain k node where "calculate_node_index 1 1 0 = Inr k" "get_node_by_index tree' k = Inr node"
    "get_bbox node = cell_box fixture_traits fixture_root_box 2 1 1 0"
    by blast
  moreover have "calculate_node_index 1 1 0 = Inr 2"
    by (simp add: index_eval)
  moreover have "cell_box fixture_traits fixture_root_box 2 1 1 0
      = BBOX3 (VEC3 0 (- 50) (- 100)) (VEC3 100 50 0)"
    by (simp add: cell_box_def fixture_defs)
  ultimately show ?thesis using i by auto
qed

text \<open>
  \<open>initialize\<close> on a tree whose node storage is empty (a default-constructed or reset
  tree). Every node of a level below \<open>depth - 1\<close> has four non-null children,
  which are the nodes of the quadrants \<open>(col * 2, row * 2)\<close>, \<open>(col * 2 + 1, row * 2)\<close>,
  \<open>(col * 2, row * 2 + 1)\<close>, \<open>(col * 2 + 1, row * 2 + 1)\<close> in the slots 0 to 3; every
  node of level \<open>depth - 1\<close> has four null slots; and \<open>has_children\<close> is true exactly
  when all four slots are non-null and false exactly when all four are null.
\<close>

lemma initialize_links_quadrants:
  fixes E :: "('t, 'f::{plus,minus,times,inverse}) traits" and tree :: "('t, 'f) QuadTree"
  assumes "node_array tree = []" and "initialize E tree box depth = Inr tree'"
    and "level < depth" and "col < 2 ^ level" and "row < 2 ^ level"
  shows "\<exists>i node. calculate_node_index level col row = Inr i \<and>
      get_node_by_index tree' i = Inr node \<and>
      (level + 1 < depth \<longrightarrow>
         (\<exists>j0 j1 j2 j3.
            get_child_at node 0 = Inr (Some j0) \<and> get_child_at node 1 = Inr (Some j1) \<and>
            get_child_at node 2 = Inr (Some j2) \<and> get_child_at node 3 = Inr (Some j3) \<and>
            calculate_node_index (level + 1) (col * 2) (row * 2) = Inr j0 \<and>
            calculate_node_index (level + 1) (col * 2 + 1) (row * 2) = Inr j1 \<and>
            calculate_node_index (level + 1) (col * 2) (row * 2 + 1) = Inr j2 \<and>
            calculate_node_index (level + 1) (col * 2 + 1) (row * 2 + 1) = Inr j3 \<and>
            j0 < get_number_nodes tree' \<and> j1 < get_number_nodes tree' \<and>
            j2 < get_number_nodes tree' \<and> j3 < get_number_nodes tree')) \<and>
      (level + 1 = depth \<longrightarrow> (\<forall>k<4. get_child_at node k = Inr None)) \<and>
      (has_children node \<longleftrightarrow> (\<forall>k<4. get_child_at node k \<noteq> Inr None)) \<and>
      (\<not> has_children node \<longleftrightarrow> (\<forall>k<4. get_child_at node k = Inr None))"
proof -
  have v: "valid_cell depth level col row" using assms(3-5) by (simp add: valid_cell_def)
  note c = initialized_cell [OF assms(2) v]
  let ?node = "node_array tree' ! node_index level col row"
  have r: "resize (Node_init E) (node_array tree) (level_start depth) ! node_index level col row
      = Node_init E"
    using valid_cell_index_less [OF v] assms(1) by (simp add: resize_Nil)
  have four: "(\<forall>k<4. P k) \<longleftrightarrow> P 0 \<and> P 1 \<and> P 2 \<and> P (3::nat)" for P
  proof -
    have "k < 4 \<longleftrightarrow> k = 0 \<or> k = 1 \<or> k = 2 \<or> k = 3" for k :: nat by auto
    then show ?thesis by auto
  qed
  show ?thesis
  proof (cases "Suc level < depth")
    case True
    have ch: "children ?node =
       [Some (quadrant_index level col row 0), Some (quadrant_index level col row 1),
        Some (quadrant_index level col row 2), Some (quadrant_index level col row 3)]"
      using c(7) [OF True] r by (simp add: link_children_all children_Node_init)
    have vq: "valid_cell depth (Suc level) (quadrant_col col k) (quadrant_row row k)"
      if "k < 4" for k using v True that by (rule valid_cell_quadrant)
    have ci: "calculate_node_index (Suc level) (quadrant_col col k) (quadrant_row row k)
        = Inr (quadrant_index level col row k)" if "k < 4" for k
      using initialized_cell(4) [OF assms(2) vq [OF that]] by (simp add: quadrant_index_def)
    have lt: "quadrant_index level col row k < get_number_nodes tree'" if "k < 4" for k
      using valid_cell_index_less [OF vq [OF that]] c(3)
      by (simp add: quadrant_index_def get_number_nodes_def)
    have q: "quadrant_col col 0 = col * 2" "quadrant_col col 1 = col * 2 + 1"
      "quadrant_col col 2 = col * 2" "quadrant_col col 3 = col * 2 + 1"
      "quadrant_row row 0 = row * 2" "quadrant_row row 1 = row * 2"
      "quadrant_row row 2 = row * 2 + 1" "quadrant_row row 3 = row * 2 + 1"
      "quadrant_col col (Suc 0) = col * 2 + 1" "quadrant_row row (Suc 0) = row * 2"
      by (simp_all add: quadrant_col_def quadrant_row_def)
    show ?thesis
      using c(4,5) True ch ci [of 0] ci [of 1] ci [of 2] ci [of 3] lt [of 0] lt [of 1] lt [of 2] lt [of 3]
      by (simp add: get_child_at_def has_children_def four q)
  next
    case False
    then have e: "level + 1 = depth" using assms(3) by simp
    have ch: "children ?node = [None, None, None, None]"
      using c(8) [OF False] r by (simp add: children_Node_init)
    show ?thesis
      using c(4,5) False e ch by (simp add: get_child_at_def has_children_def four)
  qed
qed

lemma initialize_links_quadrants_fixture:
  "\<exists>tree'. initialize fixture_traits fixture_tree fixture_root_box 2 = Inr tree' \<and>
     (\<exists>node. get_node_by_index tree' 0 = Inr node \<and>
        get_child_at node 0 = Inr (Some 1) \<and> get_child_at node 1 = Inr (Some 2) \<and>
        get_child_at node 2 = Inr (Some 3) \<and> get_child_at node 3 = Inr (Some 4) \<and>
        has_children node) \<and>
     (\<exists>node. get_node_by_index tree' 4 = Inr node \<and>
        (\<forall>k<4. get_child_at node k = Inr None) \<and> \<not> has_children node)"
proof -
  have "(0::nat) < 2" "(2::nat) \<le> 15" by simp_all
  from initialize_post [OF this, of fixture_traits fixture_tree fixture_root_box]
  obtain tree' where i: "initialize fixture_traits fixture_tree fixture_root_box 2 = Inr tree'"
    by blast
  have e: "node_array fixture_tree = []" by (simp add: fixture_tree_def)
  have h0: "(0::nat) < 2" "(0::nat) < 2 ^ 0" by simp_all
  have h1: "(1::nat) < 2" "(1::nat) < 2 ^ 1" by simp_all
  have c: "calculate_node_index 0 0 0 = Inr 0" "calculate_node_index 1 0 0 = Inr 1"
    "calculate_node_index 1 1 0 = Inr 2" "calculate_node_index 1 0 1 = Inr 3"
    "calculate_node_index 1 1 1 = Inr 4"
    by (simp_all add: index_eval)
  from initialize_links_quadrants [OF e i h0(1) h0(2) h0(2)] c
  have r: "\<exists>node. get_node_by_index tree' 0 = Inr node \<and>
        get_child_at node 0 = Inr (Some 1) \<and> get_child_at node 1 = Inr (Some 2) \<and>
        get_child_at node 2 = Inr (Some 3) \<and> get_child_at node 3 = Inr (Some 4) \<and>
        has_children node"
    by (auto simp: has_children_def)
  from initialize_links_quadrants [OF e i h1(1) h1(2) h1(2)] c
  have l: "\<exists>node. get_node_by_index tree' 4 = Inr node \<and>
        (\<forall>k<4. get_child_at node k = Inr None) \<and> \<not> has_children node"
    by auto
  from i r l show ?thesis by blast
qed

section \<open>The collectors on a linked tree\<close>

section \<open>Linked trees\<close>

lemma initialize_linked:
  fixes E :: "('t, 'f::{plus,minus,times,inverse}) traits" and tree :: "('t, 'f) QuadTree"
  assumes e: "node_array tree = []" and init: "initialize E tree box depth = Inr tree'"
  shows "linked_tree depth tree'"
proof -
  have v0: "valid_cell depth 0 0 0"
    using initialize_Inr_depth [OF init] by (simp add: valid_cell_def)
  note c0 = initialized_cell [OF init v0]
  have "children (node_array tree' ! node_index l c r) =
          (if Suc l < depth
           then [Some (quadrant_index l c r 0), Some (quadrant_index l c r 1),
                 Some (quadrant_index l c r 2), Some (quadrant_index l c r 3)]
           else [None, None, None, None])" if v: "valid_cell depth l c r" for l c r
  proof -
    note c = initialized_cell [OF init v]
    have r: "resize (Node_init E) (node_array tree) (level_start depth) ! node_index l c r
        = Node_init E"
      using valid_cell_index_less [OF v] e by (simp add: resize_Nil)
    show ?thesis
      using c(7,8) r by (simp add: link_children_all children_Node_init)
  qed
  then show ?thesis using c0(1,2,3) by (simp add: linked_tree_def)
qed

lemma initialize_boxes:
  fixes E :: "('t, 'f::{plus,minus,times,inverse}) traits" and tree :: "('t, 'f) QuadTree"
  assumes "initialize E tree box depth = Inr tree'" "valid_cell depth l c r"
  shows "get_bbox (cell_node tree' (l, c, r)) = cell_box E box depth l c r"
  using initialized_cell(6) [OF assms] by (simp add: get_bbox_def cell_node_def)

lemma set_element_at_Inr:
  assumes "set_element_at tree index e = Inr tree'"
  shows "index < length (node_array tree)" "tree' = write_element tree index e"
  using assms by (auto simp: set_element_at_def get_node_by_index_def split: if_splits)

lemma write_element_node:
  "node_array (write_element tree index e) ! j =
     (if j = index \<and> index < length (node_array tree)
      then (node_array tree ! j)\<lparr>element := e\<rparr> else node_array tree ! j)"
  by (cases "index < length (node_array tree)")
    (auto simp: write_element_def set_element_def nth_list_update list_update_beyond not_less)

lemma write_element_fields:
  "children (node_array (write_element tree index e) ! j) = children (node_array tree ! j)"
  "bbox (node_array (write_element tree index e) ! j) = bbox (node_array tree ! j)"
  "length (node_array (write_element tree index e)) = length (node_array tree)"
  "tree_depth (write_element tree index e) = tree_depth tree"
  "root_bbox (write_element tree index e) = root_bbox tree"
  by (simp_all add: write_element_node) (simp_all add: write_element_def)

lemma set_elements_fields:
  "set_elements tree ps = Inr tree' \<Longrightarrow>
     (\<forall>j. children (node_array tree' ! j) = children (node_array tree ! j)) \<and>
     (\<forall>j. bbox (node_array tree' ! j) = bbox (node_array tree ! j)) \<and>
     length (node_array tree') = length (node_array tree) \<and>
     tree_depth tree' = tree_depth tree \<and> root_bbox tree' = root_bbox tree"
proof (induction ps arbitrary: tree)
  case Nil
  then show ?case by simp
next
  case (Cons p ps)
  obtain index e where p: "p = (index, e)" by (cases p)
  from Cons.prems p obtain tree1 where s: "set_element_at tree index e = Inr tree1"
    and r: "set_elements tree1 ps = Inr tree'"
    by (auto split: sum.splits)
  from set_element_at_Inr(2) [OF s] Cons.IH [OF r] show ?case
    by (simp add: write_element_fields)
qed

lemma set_elements_linked:
  assumes "linked_tree depth tree" "set_elements tree ps = Inr tree'"
  shows "linked_tree depth tree'"
  using assms(1) set_elements_fields [OF assms(2)] by (simp add: linked_tree_def)

lemma set_elements_boxes:
  assumes "set_elements tree ps = Inr tree'"
  shows "get_bbox (cell_node tree' cell) = get_bbox (cell_node tree cell)"
  using set_elements_fields [OF assms] by (simp add: get_bbox_def cell_node_def split: prod.splits)

lemma linked_tree_index:
  assumes "linked_tree depth tree" "valid_cell depth l c r"
  shows "\<not> length (node_array tree) \<le> node_index l c r"
  using valid_cell_index_less [OF assms(2)] assms(1) by (simp add: linked_tree_def)

lemma linked_tree_children:
  assumes "linked_tree depth tree" "valid_cell depth l c r"
  shows "Suc l < depth \<Longrightarrow> children (node_array tree ! node_index l c r) =
           [Some (quadrant_index l c r 0), Some (quadrant_index l c r 1),
            Some (quadrant_index l c r 2), Some (quadrant_index l c r 3)]"
    and "\<not> Suc l < depth \<Longrightarrow> children (node_array tree ! node_index l c r) =
           [None, None, None, None]"
  using assms by (simp_all add: linked_tree_def)

lemma linked_tree_has_children:
  assumes "linked_tree depth tree" "valid_cell depth l c r"
  shows "has_children (node_array tree ! node_index l c r) \<longleftrightarrow> Suc l < depth"
  using linked_tree_children [OF assms] by (cases "Suc l < depth") (simp_all add: has_children_def get_child_at_def)

lemma linked_tree_get_child_at:
  assumes "linked_tree depth tree" "valid_cell depth l c r" "Suc l < depth" "k \<in> set [0, 1, 2, 3]"
  shows "get_child_at (node_array tree ! node_index l c r) k = Inr (Some (quadrant_index l c r k))"
  using linked_tree_children(1) [OF assms(1-3)] assms(4) by (auto simp: get_child_at_def)

lemma slot_less: "k \<in> set [0, 1, 2, 3] \<Longrightarrow> k < (4::nat)"
  by auto

section \<open>Collecting a whole subtree\<close>

lemma present_payloads_append:
  "present_payloads E tree (xs @ ys) = present_payloads E tree xs @ present_payloads E tree ys"
  by (simp add: present_payloads_def)

lemma present_payloads_Nil: "present_payloads E tree [] = []"
  by (simp add: present_payloads_def)

lemma push_if_present_eq:
  "push_if_present E (node_array tree ! node_index l c r) acc
     = acc @ present_payloads E tree [(l, c, r)]"
  by (simp add: push_if_present_def present_payloads_def cell_node_def Let_def)

lemma collect_all_children_linked:
  assumes IH: "\<And>k acc. k \<in> set [0, 1, 2, 3] \<Longrightarrow>
      recurse_collect_all_nodes fuel E tree (quadrant_index l c r k) acc
        = Some (Inr (acc @ present_payloads E tree
                  (subtree_cells depth (Suc l) (quadrant_col c k) (quadrant_row r k))))"
    and lt: "linked_tree depth tree" and v: "valid_cell depth l c r" and inner: "Suc l < depth"
  shows "set ks \<subseteq> set [0, 1, 2, 3] \<Longrightarrow>
    collect_all_children fuel E tree (node_array tree ! node_index l c r) ks acc
      = Some (Inr (acc @ present_payloads E tree
           (concat (map (\<lambda>k. subtree_cells depth (Suc l) (quadrant_col c k) (quadrant_row r k)) ks))))"
proof (induction ks arbitrary: acc)
  case Nil
  then show ?case by (simp add: present_payloads_Nil)
next
  case (Cons k ks)
  then have k: "k \<in> set [0, 1, 2, 3]" and ks: "set ks \<subseteq> set [0, 1, 2, 3]" by auto
  show ?case
    using linked_tree_get_child_at [OF lt v inner k] IH [OF k] Cons.IH [OF ks]
    by (simp add: present_payloads_append)
qed

lemma recurse_collect_all_nodes_linked:
  assumes lt: "linked_tree depth tree"
  shows "valid_cell depth l c r \<Longrightarrow> depth - l \<le> fuel \<Longrightarrow>
    recurse_collect_all_nodes fuel E tree (node_index l c r) acc
      = Some (Inr (acc @ present_payloads E tree (subtree_cells depth l c r)))"
proof (induction "depth - l" arbitrary: l c r fuel acc)
  case 0
  then show ?case by (simp add: valid_cell_def)
next
  case (Suc n)
  note v = Suc.prems(1)
  from Suc.hyps(2) Suc.prems(2) obtain f where f: "fuel = Suc f" by (cases fuel) auto
  note nl = linked_tree_index [OF lt v]
  note hc = linked_tree_has_children [OF lt v]
  show ?case
  proof (cases "Suc l < depth")
    case False
    then show ?thesis
      using nl hc f by (simp add: subtree_cells.simps [of depth l] push_if_present_eq Let_def)
  next
    case True
    have IH: "recurse_collect_all_nodes f E tree (quadrant_index l c r k) acc'
        = Some (Inr (acc' @ present_payloads E tree
                  (subtree_cells depth (Suc l) (quadrant_col c k) (quadrant_row r k))))"
      if k: "k \<in> set [0, 1, 2, 3]" for k acc'
    proof -
      have vq: "valid_cell depth (Suc l) (quadrant_col c k) (quadrant_row r k)"
        using v True slot_less [OF k] by (rule valid_cell_quadrant)
      have n: "n = depth - Suc l" using Suc.hyps(2) by simp
      have fl: "depth - Suc l \<le> f" using Suc.prems(2) f by simp
      from Suc.hyps(1) [OF n vq fl] show ?thesis by (simp add: quadrant_index_def)
    qed
    have "set [0, 1, 2, 3] \<subseteq> set [0, 1, 2, 3::nat]" by simp
    note ch = collect_all_children_linked [OF IH lt v True this]
    have step: "recurse_collect_all_nodes (Suc f) E tree (node_index l c r) acc =
        collect_all_children f E tree (node_array tree ! node_index l c r) [0, 1, 2, 3]
          (acc @ present_payloads E tree [(l, c, r)])"
      using nl hc True
      by (simp add: push_if_present_eq Let_def del: collect_all_children.simps)
    have "recurse_collect_all_nodes fuel E tree (node_index l c r) acc =
        Some (Inr ((acc @ present_payloads E tree [(l, c, r)]) @ present_payloads E tree
           (concat (map (\<lambda>k. subtree_cells depth (Suc l) (quadrant_col c k) (quadrant_row r k))
              [0, 1, 2, 3]))))"
      unfolding f step by (rule ch)
    then show ?thesis
      by (simp add: subtree_cells.simps [of depth l] True present_payloads_def
          del: collect_all_children.simps recurse_collect_all_nodes.simps)
  qed
qed

section \<open>The line collector\<close>

lemma line_intersect_children_linked:
  assumes IH: "\<And>k acc. k \<in> set [0, 1, 2, 3] \<Longrightarrow>
      recurse_line_intersect fuel E test tree (quadrant_index l c r k) line acc
        = Some (Inr (acc @ present_payloads E tree
                  (line_cells (\<lambda>b. test b line) tree depth (Suc l)
                     (quadrant_col c k) (quadrant_row r k))))"
    and lt: "linked_tree depth tree" and v: "valid_cell depth l c r" and inner: "Suc l < depth"
  shows "set ks \<subseteq> set [0, 1, 2, 3] \<Longrightarrow>
    line_intersect_children fuel E test tree (node_array tree ! node_index l c r) ks line acc
      = Some (Inr (acc @ present_payloads E tree
           (concat (map (\<lambda>k. line_cells (\<lambda>b. test b line) tree depth (Suc l)
                               (quadrant_col c k) (quadrant_row r k)) ks))))"
proof (induction ks arbitrary: acc)
  case Nil
  then show ?case by (simp add: present_payloads_Nil)
next
  case (Cons k ks)
  then have k: "k \<in> set [0, 1, 2, 3]" and ks: "set ks \<subseteq> set [0, 1, 2, 3]" by auto
  show ?case
    using linked_tree_get_child_at [OF lt v inner k] IH [OF k] Cons.IH [OF ks]
    by (simp add: present_payloads_append)
qed

lemma recurse_line_intersect_linked:
  assumes lt: "linked_tree depth tree"
  shows "valid_cell depth l c r \<Longrightarrow> depth - l \<le> fuel \<Longrightarrow>
    recurse_line_intersect fuel E test tree (node_index l c r) line acc
      = Some (Inr (acc @ present_payloads E tree
                (line_cells (\<lambda>b. test b line) tree depth l c r)))"
proof (induction "depth - l" arbitrary: l c r fuel acc)
  case 0
  then show ?case by (simp add: valid_cell_def)
next
  case (Suc n)
  note v = Suc.prems(1)
  from Suc.hyps(2) Suc.prems(2) obtain f where f: "fuel = Suc f" by (cases fuel) auto
  note nl = linked_tree_index [OF lt v]
  note hc = linked_tree_has_children [OF lt v]
  let ?node = "node_array tree ! node_index l c r"
  show ?case
  proof (cases "test (get_bbox ?node) line")
    case miss: False
    then show ?thesis
      using nl f
      by (simp add: line_cells.simps [of _ tree depth l] cell_node_def present_payloads_Nil Let_def)
  next
    case hit: True
    show ?thesis
    proof (cases "Suc l < depth")
      case False
      then show ?thesis
        using nl hc f hit
        by (simp add: line_cells.simps [of _ tree depth l] cell_node_def push_if_present_eq Let_def)
    next
      case True
      have IH: "recurse_line_intersect f E test tree (quadrant_index l c r k) line acc'
          = Some (Inr (acc' @ present_payloads E tree
                    (line_cells (\<lambda>b. test b line) tree depth (Suc l)
                       (quadrant_col c k) (quadrant_row r k))))"
        if k: "k \<in> set [0, 1, 2, 3]" for k acc'
      proof -
        have vq: "valid_cell depth (Suc l) (quadrant_col c k) (quadrant_row r k)"
          using v True slot_less [OF k] by (rule valid_cell_quadrant)
        have n: "n = depth - Suc l" using Suc.hyps(2) by simp
        have fl: "depth - Suc l \<le> f" using Suc.prems(2) f by simp
        from Suc.hyps(1) [OF n vq fl] show ?thesis by (simp add: quadrant_index_def)
      qed
      have "set [0, 1, 2, 3] \<subseteq> set [0, 1, 2, 3::nat]" by simp
      note ch = line_intersect_children_linked [OF IH lt v True this]
      have step: "recurse_line_intersect (Suc f) E test tree (node_index l c r) line acc =
          line_intersect_children f E test tree ?node [0, 1, 2, 3] line
            (acc @ present_payloads E tree [(l, c, r)])"
        using nl hc True hit
        by (simp add: push_if_present_eq Let_def del: line_intersect_children.simps)
      have "recurse_line_intersect fuel E test tree (node_index l c r) line acc =
          Some (Inr ((acc @ present_payloads E tree [(l, c, r)]) @ present_payloads E tree
             (concat (map (\<lambda>k. line_cells (\<lambda>b. test b line) tree depth (Suc l)
                                 (quadrant_col c k) (quadrant_row r k)) [0, 1, 2, 3]))))"
        unfolding f step by (rule ch)
      then show ?thesis
        using hit
        by (simp add: line_cells.simps [of _ tree depth l] True present_payloads_def cell_node_def
            del: line_intersect_children.simps recurse_line_intersect.simps)
    qed
  qed
qed

section \<open>The frustum collector\<close>

lemma collect_by_frustum_children_linked:
  assumes IH: "\<And>k acc. k \<in> set [0, 1, 2, 3] \<Longrightarrow>
      recurse_collect_by_frustum fuel E clip tree (quadrant_index l c r k) proj acc
        = Some (Inr (acc @ present_payloads E tree
                  (frustum_cells (\<lambda>b. clip b proj) tree depth (Suc l)
                     (quadrant_col c k) (quadrant_row r k))))"
    and lt: "linked_tree depth tree" and v: "valid_cell depth l c r" and inner: "Suc l < depth"
  shows "set ks \<subseteq> set [0, 1, 2, 3] \<Longrightarrow>
    collect_by_frustum_children fuel E clip tree (node_array tree ! node_index l c r) ks proj acc
      = Some (Inr (acc @ present_payloads E tree
           (concat (map (\<lambda>k. frustum_cells (\<lambda>b. clip b proj) tree depth (Suc l)
                               (quadrant_col c k) (quadrant_row r k)) ks))))"
proof (induction ks arbitrary: acc)
  case Nil
  then show ?case by (simp add: present_payloads_Nil)
next
  case (Cons k ks)
  then have k: "k \<in> set [0, 1, 2, 3]" and ks: "set ks \<subseteq> set [0, 1, 2, 3]" by auto
  show ?case
    using linked_tree_get_child_at [OF lt v inner k] IH [OF k] Cons.IH [OF ks]
    by (simp add: present_payloads_append)
qed

lemma recurse_collect_by_frustum_linked:
  assumes lt: "linked_tree depth tree"
  shows "valid_cell depth l c r \<Longrightarrow> depth - l \<le> fuel \<Longrightarrow>
    recurse_collect_by_frustum fuel E clip tree (node_index l c r) proj acc
      = Some (Inr (acc @ present_payloads E tree
                (frustum_cells (\<lambda>b. clip b proj) tree depth l c r)))"
proof (induction "depth - l" arbitrary: l c r fuel acc)
  case 0
  then show ?case by (simp add: valid_cell_def)
next
  case (Suc n)
  note v = Suc.prems(1)
  from Suc.hyps(2) Suc.prems(2) obtain f where f: "fuel = Suc f" by (cases fuel) auto
  note nl = linked_tree_index [OF lt v]
  note hc = linked_tree_has_children [OF lt v]
  let ?node = "node_array tree ! node_index l c r"
  show ?case
  proof (cases "clip (get_bbox ?node) proj")
    case Outside
    then show ?thesis
      using nl f
      by (simp add: frustum_cells.simps [of _ tree depth l] cell_node_def present_payloads_Nil Let_def)
  next
    case Inside
    have "recurse_collect_by_frustum (Suc f) E clip tree (node_index l c r) proj acc
        = recurse_collect_all_nodes (Suc f) E tree (node_index l c r) acc"
      using nl Inside by (simp add: Let_def del: recurse_collect_all_nodes.simps)
    also have "\<dots> = Some (Inr (acc @ present_payloads E tree (subtree_cells depth l c r)))"
      using Suc.prems(2) f by (intro recurse_collect_all_nodes_linked [OF lt v]) simp
    finally show ?thesis
      using Inside f by (simp add: frustum_cells.simps [of _ tree depth l] cell_node_def
          del: recurse_collect_by_frustum.simps)
  next
    case Clipped
    show ?thesis
    proof (cases "Suc l < depth")
      case False
      then show ?thesis
        using nl hc f Clipped
        by (simp add: frustum_cells.simps [of _ tree depth l] cell_node_def push_if_present_eq Let_def)
    next
      case True
      have IH: "recurse_collect_by_frustum f E clip tree (quadrant_index l c r k) proj acc'
          = Some (Inr (acc' @ present_payloads E tree
                    (frustum_cells (\<lambda>b. clip b proj) tree depth (Suc l)
                       (quadrant_col c k) (quadrant_row r k))))"
        if k: "k \<in> set [0, 1, 2, 3]" for k acc'
      proof -
        have vq: "valid_cell depth (Suc l) (quadrant_col c k) (quadrant_row r k)"
          using v True slot_less [OF k] by (rule valid_cell_quadrant)
        have n: "n = depth - Suc l" using Suc.hyps(2) by simp
        have fl: "depth - Suc l \<le> f" using Suc.prems(2) f by simp
        from Suc.hyps(1) [OF n vq fl] show ?thesis by (simp add: quadrant_index_def)
      qed
      have "set [0, 1, 2, 3] \<subseteq> set [0, 1, 2, 3::nat]" by simp
      note ch = collect_by_frustum_children_linked [OF IH lt v True this]
      have step: "recurse_collect_by_frustum (Suc f) E clip tree (node_index l c r) proj acc =
          collect_by_frustum_children f E clip tree ?node [0, 1, 2, 3] proj
            (acc @ present_payloads E tree [(l, c, r)])"
        using nl hc True Clipped
        by (simp add: push_if_present_eq Let_def del: collect_by_frustum_children.simps)
      have "recurse_collect_by_frustum fuel E clip tree (node_index l c r) proj acc =
          Some (Inr ((acc @ present_payloads E tree [(l, c, r)]) @ present_payloads E tree
             (concat (map (\<lambda>k. frustum_cells (\<lambda>b. clip b proj) tree depth (Suc l)
                                 (quadrant_col c k) (quadrant_row r k)) [0, 1, 2, 3]))))"
        unfolding f step by (rule ch)
      then show ?thesis
        using Clipped
        by (simp add: frustum_cells.simps [of _ tree depth l] True present_payloads_def
            cell_node_def
            del: collect_by_frustum_children.simps recurse_collect_by_frustum.simps)
    qed
  qed
qed

section \<open>The cells of a subtree\<close>

lemma in_subtree_refl: "in_subtree l c r l c r"
  by (simp add: in_subtree_def)

lemma subtree_cells_set:
  "l < depth \<Longrightarrow>
   set (subtree_cells depth l c r) = {(l', c', r'). l' < depth \<and> in_subtree l c r l' c' r'}"
proof (induction "depth - l" arbitrary: l c r)
  case 0
  then show ?case by simp
next
  case (Suc n)
  show ?case
  proof (cases "Suc l < depth")
    case False
    then have "l' < depth \<and> in_subtree l c r l' c' r' \<longleftrightarrow> (l', c', r') = (l, c, r)" for l' c' r'
      using Suc.prems by (auto simp: in_subtree_def)
    then show ?thesis
      using False by (auto simp: subtree_cells.simps [of depth l])
  next
    case True
    have n: "n = depth - Suc l" using Suc.hyps(2) by simp
    have IH: "set (subtree_cells depth (Suc l) (quadrant_col c k) (quadrant_row r k)) =
        {(l', c', r'). l' < depth \<and> in_subtree (Suc l) (quadrant_col c k) (quadrant_row r k) l' c' r'}"
      for k using Suc.hyps(1) [OF n True] .
    have four: "(\<exists>k<4. P k) \<longleftrightarrow> P 0 \<or> P 1 \<or> P 2 \<or> P (3::nat)" for P
    proof -
      have "k < 4 \<longleftrightarrow> k = 0 \<or> k = 1 \<or> k = 2 \<or> k = 3" for k :: nat by auto
      then show ?thesis by auto
    qed
    have "(l', c', r') \<in> set (subtree_cells depth l c r) \<longleftrightarrow>
        l' < depth \<and> in_subtree l c r l' c' r'" for l' c' r'
    proof -
      have "(l', c', r') \<in> set (subtree_cells depth l c r) \<longleftrightarrow>
          (l', c', r') = (l, c, r) \<or>
          (l' < depth \<and> (\<exists>k<4. in_subtree (Suc l) (quadrant_col c k) (quadrant_row r k) l' c' r'))"
        using True by (simp add: subtree_cells.simps [of depth l] IH four) blast
      also have "\<dots> \<longleftrightarrow> l' < depth \<and> in_subtree l c r l' c' r'"
        using in_subtree_cases [of l c r l' c' r'] Suc.prems
          in_subtree_level [of "Suc l" _ _ l' c' r']
        by (auto simp: less_eq_Suc_le)
      finally show ?thesis .
    qed
    then show ?thesis by auto
  qed
qed

lemma subtree_cells_distinct: "l < depth \<Longrightarrow> distinct (subtree_cells depth l c r)"
proof (induction "depth - l" arbitrary: l c r)
  case 0
  then show ?case by simp
next
  case (Suc n)
  show ?case
  proof (cases "Suc l < depth")
    case False
    then show ?thesis by (simp add: subtree_cells.simps [of depth l])
  next
    case True
    have n: "n = depth - Suc l" using Suc.hyps(2) by simp
    let ?sub = "\<lambda>k. subtree_cells depth (Suc l) (quadrant_col c k) (quadrant_row r k)"
    have d: "distinct (?sub k)" for k using Suc.hyps(1) [OF n True] .
    have s: "set (?sub k) =
        {(l', c', r'). l' < depth \<and> in_subtree (Suc l) (quadrant_col c k) (quadrant_row r k) l' c' r'}"
      for k using True by (rule subtree_cells_set)
    have dj: "set (?sub k) \<inter> set (?sub k') = {}" if "k < 4" "k' < 4" "k \<noteq> k'" for k k'
      using in_subtree_quadrant_unique [of l c k r _ _ _ k'] that unfolding s by auto
    have nt: "(l, c, r) \<notin> set (?sub k)" for k
      unfolding s using in_subtree_level [of "Suc l" _ _ l c r] by auto
    have "distinct (?sub 0 @ ?sub 1 @ ?sub 2 @ ?sub 3)"
      using d dj [of 0 1] dj [of 0 2] dj [of 0 3] dj [of 1 2] dj [of 1 3] dj [of 2 3]
      by (simp add: Int_Un_distrib)
    then show ?thesis
      using nt by (simp add: subtree_cells.simps [of depth l] True)
  qed
qed

lemma subtree_cells_valid:
  assumes "valid_cell depth l c r" "(l', c', r') \<in> set (subtree_cells depth l c r)"
  shows "valid_cell depth l' c' r'"
proof -
  have l: "l < depth" "c < 2 ^ l" "r < 2 ^ l" using assms(1) by (simp_all add: valid_cell_def)
  from assms(2) have s: "l' < depth" "in_subtree l c r l' c' r'"
    unfolding subtree_cells_set [OF l(1)] by simp_all
  then have le: "l \<le> l'" and c: "c' div 2 ^ (l' - l) = c" and r: "r' div 2 ^ (l' - l) = r"
    by (simp_all add: in_subtree_def)
  have p: "(2::nat) ^ l' = 2 ^ (l' - l) * 2 ^ l" using le by (simp add: power_add [symmetric])
  have "c' div 2 ^ (l' - l) < 2 ^ l" "r' div 2 ^ (l' - l) < 2 ^ l" using c r l by simp_all
  then have "c' < 2 ^ l'" "r' < 2 ^ l'"
    unfolding p by (simp_all add: div_less_iff_less_mult mult.commute)
  with s(1) show ?thesis by (simp add: valid_cell_def)
qed

section \<open>The cells that a line query visits\<close>

lemma chain_accepted_start:
  "chain_accepted accepts tree l (l, c, r) \<longleftrightarrow> accepts (get_bbox (cell_node tree (l, c, r)))"
  by (auto simp: chain_accepted_def)

lemma chain_accepted_step:
  assumes "in_subtree l c r l' c' r'" "l < l'"
  shows "chain_accepted accepts tree l (l', c', r') \<longleftrightarrow>
     accepts (get_bbox (cell_node tree (l, c, r))) \<and> chain_accepted accepts tree (Suc l) (l', c', r')"
proof -
  have top: "(l, c' div 2 ^ (l' - l), r' div 2 ^ (l' - l)) = (l, c, r)"
    using assms(1) by (simp add: in_subtree_def)
  have "(\<forall>k. l \<le> k \<and> k \<le> l' \<longrightarrow> P k) \<longleftrightarrow> P l \<and> (\<forall>k. Suc l \<le> k \<and> k \<le> l' \<longrightarrow> P k)" for P
    using assms(2) by (metis Suc_leD Suc_leI le_neq_implies_less less_or_eq_imp_le)
  then show ?thesis
    unfolding chain_accepted_def prod.case using top by simp
qed

lemma line_cells_filter:
  "l < depth \<Longrightarrow>
   line_cells accepts tree depth l c r =
     filter (chain_accepted accepts tree l) (subtree_cells depth l c r)"
proof (induction "depth - l" arbitrary: l c r)
  case 0
  then show ?case by simp
next
  case (Suc n)
  note s = subtree_cells_set [OF Suc.prems]
  show ?case
  proof (cases "accepts (get_bbox (cell_node tree (l, c, r)))")
    case False
    have "\<not> chain_accepted accepts tree l cell" if "cell \<in> set (subtree_cells depth l c r)" for cell
    proof -
      obtain l' c' r' where cell: "cell = (l', c', r')" by (cases cell)
      with that have i: "in_subtree l c r l' c' r'" unfolding s by simp
      show ?thesis
      proof (cases "l < l'")
        case True
        then show ?thesis using chain_accepted_step [OF i True, of accepts tree] False cell by simp
      next
        case eq: False
        then have "l' = l" "c' = c" "r' = r" using i by (auto simp: in_subtree_def)
        then show ?thesis using False cell by (simp add: chain_accepted_start)
      qed
    qed
    then have "filter (chain_accepted accepts tree l) (subtree_cells depth l c r) = []"
      by (simp add: filter_empty_conv)
    then show ?thesis using False by (simp add: line_cells.simps [of accepts tree depth l])
  next
    case acc: True
    show ?thesis
    proof (cases "Suc l < depth")
      case False
      then show ?thesis
        using acc by (simp add: line_cells.simps [of accepts tree depth l]
            subtree_cells.simps [of depth l] chain_accepted_start)
    next
      case True
      have n: "n = depth - Suc l" using Suc.hyps(2) by simp
      let ?sub = "\<lambda>k. subtree_cells depth (Suc l) (quadrant_col c k) (quadrant_row r k)"
      have IH: "line_cells accepts tree depth (Suc l) (quadrant_col c k) (quadrant_row r k) =
          filter (chain_accepted accepts tree (Suc l)) (?sub k)" for k
        using Suc.hyps(1) [OF n True] .
      have f: "filter (chain_accepted accepts tree l) (?sub k) =
          filter (chain_accepted accepts tree (Suc l)) (?sub k)" if k: "k < 4" for k
      proof (rule filter_cong [OF refl])
        fix cell assume m: "cell \<in> set (?sub k)"
        obtain l' c' r' where cell: "cell = (l', c', r')" by (cases cell)
        from m cell have i': "in_subtree (Suc l) (quadrant_col c k) (quadrant_row r k) l' c' r'"
          unfolding subtree_cells_set [OF True] by simp
        then have lt: "l < l'" using in_subtree_level [OF i'] by simp
        have "in_subtree l c r l' c' r'" using in_subtree_step [OF lt, of c r c' r'] i' k by blast
        from chain_accepted_step [OF this lt, of accepts tree] acc cell
        show "chain_accepted accepts tree l cell = chain_accepted accepts tree (Suc l) cell"
          by simp
      qed
      show ?thesis
        using acc True f [of 0] f [of 1] f [of 2] f [of 3]
        by (simp add: line_cells.simps [of accepts tree depth l] subtree_cells.simps [of depth l]
            IH chain_accepted_start)
    qed
  qed
qed

section \<open>Trees of a client\<close>

lemma client_tree:
  fixes E :: "('t, 'f::{plus,minus,times,inverse}) traits" and tree0 :: "('t, 'f) QuadTree"
  assumes "node_array tree0 = []" and "initialize E tree0 box depth = Inr tree1"
    and "set_elements tree1 payloads = Inr tree"
  shows "linked_tree depth tree"
    and "valid_cell depth l c r \<Longrightarrow> get_bbox (cell_node tree (l, c, r)) = cell_box E box depth l c r"
    and "valid_cell depth l c r \<Longrightarrow> calculate_node_index l c r = Inr (node_index l c r)"
    and "valid_cell depth l c r \<Longrightarrow>
           get_node_by_index tree (node_index l c r) = Inr (cell_node tree (l, c, r))"
proof -
  show lt: "linked_tree depth tree"
    using initialize_linked [OF assms(1,2)] assms(3) by (rule set_elements_linked)
  show "get_bbox (cell_node tree (l, c, r)) = cell_box E box depth l c r" if "valid_cell depth l c r"
    using initialize_boxes [OF assms(2) that] set_elements_boxes [OF assms(3)] by simp
  show "calculate_node_index l c r = Inr (node_index l c r)" if "valid_cell depth l c r"
    using initialized_cell(4) [OF assms(2) that] .
  show "get_node_by_index tree (node_index l c r) = Inr (cell_node tree (l, c, r))"
    if "valid_cell depth l c r"
    using linked_tree_index [OF lt that] by (simp add: get_node_by_index_def cell_node_def)
qed

lemma present_payloads_concat:
  "present_payloads E tree (concat xss) = concat (map (present_payloads E tree) xss)"
  by (induction xss) (simp_all add: present_payloads_Nil present_payloads_append)

lemma push_if_present_Nil:
  "push_if_present E (cell_node tree (l, c, r)) [] = present_payloads E tree [(l, c, r)]"
  by (simp add: push_if_present_def present_payloads_def Let_def)

text \<open>
  C2. On a tree obtained by \<open>initialize\<close> on empty storage followed by any calls of
  \<open>set_element\<close>, started at the node of any cell with enough fuel for the levels below
  it: when the box of the start node classifies as \<open>Inside\<close>, \<open>collect_by_frustum\<close>
  returns exactly the present payloads of the cells of the subtree of the start cell
  (each cell once, in pre-order), whatever the classification of the descendants'
  boxes is; when it classifies as \<open>Outside\<close>, the collection is empty. The old contents
  of the container do not matter.
\<close>

theorem collect_by_frustum_inside_outside:
  fixes E :: "('t, 'f::{plus,minus,times,inverse}) traits" and tree0 :: "('t, 'f) QuadTree"
  assumes "node_array tree0 = []" and "initialize E tree0 box depth = Inr tree1"
    and "set_elements tree1 payloads = Inr tree"
    and "level < depth" and "col < 2 ^ level" and "row < 2 ^ level"
    and "depth - level \<le> fuel"
  shows "\<exists>start node. calculate_node_index level col row = Inr start \<and>
      get_node_by_index tree start = Inr node \<and>
      (clipstatus (get_bbox node) projection = Inside \<longrightarrow>
         collect_by_frustum fuel E clipstatus tree start projection collected =
           Some (Inr (present_payloads E tree (subtree_cells depth level col row)))) \<and>
      (clipstatus (get_bbox node) projection = Outside \<longrightarrow>
         collect_by_frustum fuel E clipstatus tree start projection collected = Some (Inr [])) \<and>
      set (subtree_cells depth level col row) =
        {(l', c', r'). l' < depth \<and> in_subtree level col row l' c' r'} \<and>
      distinct (subtree_cells depth level col row)"
proof -
  have v: "valid_cell depth level col row" using assms(4-6) by (simp add: valid_cell_def)
  note ct = client_tree [OF assms(1-3)]
  have run: "collect_by_frustum fuel E clipstatus tree (node_index level col row) projection collected
      = Some (Inr (present_payloads E tree
           (frustum_cells (\<lambda>b. clipstatus b projection) tree depth level col row)))"
    using recurse_collect_by_frustum_linked [OF ct(1) v assms(7), of E clipstatus projection "[]"]
    by (simp add: collect_by_frustum_def)
  have "clipstatus (get_bbox (cell_node tree (level, col, row))) projection = Inside \<Longrightarrow>
      frustum_cells (\<lambda>b. clipstatus b projection) tree depth level col row
        = subtree_cells depth level col row"
    by (simp add: frustum_cells.simps [of _ tree depth level])
  moreover have "clipstatus (get_bbox (cell_node tree (level, col, row))) projection = Outside \<Longrightarrow>
      frustum_cells (\<lambda>b. clipstatus b projection) tree depth level col row = []"
    by (simp add: frustum_cells.simps [of _ tree depth level])
  ultimately show ?thesis
    using ct(3,4) [OF v] run subtree_cells_set [OF assms(4), of col row]
      subtree_cells_distinct [OF assms(4), of col row]
    by (simp add: present_payloads_Nil)
qed

text \<open>
  C3. On such a tree, \<open>collect_by_line_intersect\<close> returns the same collection
  whatever the container held before (it is cleared first); the collection is empty
  when the intersection test fails on the box of the start node; and when the test
  succeeds it holds the present payloads of exactly the cells of the subtree whose
  own box and the boxes of all cells between the start cell and them are reported as
  intersected, the start cell first.
\<close>

theorem collect_by_line_intersect_result:
  fixes E :: "('t, 'f::{plus,minus,times,inverse}) traits" and tree0 :: "('t, 'f) QuadTree"
  assumes "node_array tree0 = []" and "initialize E tree0 box depth = Inr tree1"
    and "set_elements tree1 payloads = Inr tree"
    and "level < depth" and "col < 2 ^ level" and "row < 2 ^ level"
    and "depth - level \<le> fuel"
  shows "\<exists>start node. calculate_node_index level col row = Inr start \<and>
      get_node_by_index tree start = Inr node \<and>
      collect_by_line_intersect fuel E test_intersection tree start line collected =
        collect_by_line_intersect fuel E test_intersection tree start line [] \<and>
      collect_by_line_intersect fuel E test_intersection tree start line collected =
        Some (Inr (present_payloads E tree
          (filter (chain_accepted (\<lambda>b. test_intersection b line) tree level)
             (subtree_cells depth level col row)))) \<and>
      (\<not> test_intersection (get_bbox node) line \<longrightarrow>
         collect_by_line_intersect fuel E test_intersection tree start line collected
           = Some (Inr [])) \<and>
      (test_intersection (get_bbox node) line \<longrightarrow>
         (\<exists>rest. filter (chain_accepted (\<lambda>b. test_intersection b line) tree level)
                   (subtree_cells depth level col row) = (level, col, row) # rest)) \<and>
      set (subtree_cells depth level col row) =
        {(l', c', r'). l' < depth \<and> in_subtree level col row l' c' r'} \<and>
      distinct (subtree_cells depth level col row)"
proof -
  have v: "valid_cell depth level col row" using assms(4-6) by (simp add: valid_cell_def)
  note ct = client_tree [OF assms(1-3)]
  let ?acc = "\<lambda>b. test_intersection b line"
  have run: "collect_by_line_intersect fuel E test_intersection tree (node_index level col row)
        line old
      = Some (Inr (present_payloads E tree (line_cells ?acc tree depth level col row)))" for old
    using recurse_line_intersect_linked [OF ct(1) v assms(7), of E test_intersection line "[]"]
    by (simp add: collect_by_line_intersect_def)
  note lf = line_cells_filter [OF assms(4), of ?acc tree col row]
  have miss: "\<not> test_intersection (get_bbox (cell_node tree (level, col, row))) line \<Longrightarrow>
      line_cells ?acc tree depth level col row = []"
    by (simp add: line_cells.simps [of _ tree depth level])
  have hit: "test_intersection (get_bbox (cell_node tree (level, col, row))) line \<Longrightarrow>
      \<exists>rest. line_cells ?acc tree depth level col row = (level, col, row) # rest"
    by (simp add: line_cells.simps [of _ tree depth level])
  show ?thesis
    using ct(3,4) [OF v] run miss hit subtree_cells_set [OF assms(4), of col row]
      subtree_cells_distinct [OF assms(4), of col row]
    unfolding lf [symmetric]
    by (simp add: present_payloads_Nil)
qed

text \<open>
  C10. On such a tree, at every node that has children: the output of
  \<open>collect_by_line_intersect\<close> (when the node's box is intersected), of
  \<open>collect_by_frustum\<close> (when the node's box is \<open>Clipped\<close>, and when it is \<open>Inside\<close>) and of
  \<open>recurse_collect_all_nodes\<close> is the node's own present payload, followed by the whole
  output for child 0, then child 1, child 2 and child 3, each being the output of
  the same collection started at that child. So a node's payload precedes those of
  its descendants, and the payloads of the subtree of child i precede those of child
  j for i < j.
\<close>

theorem collectors_emit_in_preorder:
  fixes E :: "('t, 'f::{plus,minus,times,inverse}) traits" and tree0 :: "('t, 'f) QuadTree"
  assumes "node_array tree0 = []" and "initialize E tree0 box depth = Inr tree1"
    and "set_elements tree1 payloads = Inr tree"
    and "level + 1 < depth" and "col < 2 ^ level" and "row < 2 ^ level"
    and "depth - level \<le> fuel"
  shows "\<exists>start node c0 c1 c2 c3.
      calculate_node_index level col row = Inr start \<and>
      get_node_by_index tree start = Inr node \<and>
      get_child_at node 0 = Inr (Some c0) \<and> get_child_at node 1 = Inr (Some c1) \<and>
      get_child_at node 2 = Inr (Some c2) \<and> get_child_at node 3 = Inr (Some c3) \<and>
      (test_intersection (get_bbox node) line \<longrightarrow>
         (\<exists>o0 o1 o2 o3.
            collect_by_line_intersect fuel E test_intersection tree c0 line [] = Some (Inr o0) \<and>
            collect_by_line_intersect fuel E test_intersection tree c1 line [] = Some (Inr o1) \<and>
            collect_by_line_intersect fuel E test_intersection tree c2 line [] = Some (Inr o2) \<and>
            collect_by_line_intersect fuel E test_intersection tree c3 line [] = Some (Inr o3) \<and>
            collect_by_line_intersect fuel E test_intersection tree start line collected =
              Some (Inr (push_if_present E node [] @ o0 @ o1 @ o2 @ o3)))) \<and>
      (clipstatus (get_bbox node) projection = Clipped \<longrightarrow>
         (\<exists>o0 o1 o2 o3.
            collect_by_frustum fuel E clipstatus tree c0 projection [] = Some (Inr o0) \<and>
            collect_by_frustum fuel E clipstatus tree c1 projection [] = Some (Inr o1) \<and>
            collect_by_frustum fuel E clipstatus tree c2 projection [] = Some (Inr o2) \<and>
            collect_by_frustum fuel E clipstatus tree c3 projection [] = Some (Inr o3) \<and>
            collect_by_frustum fuel E clipstatus tree start projection collected =
              Some (Inr (push_if_present E node [] @ o0 @ o1 @ o2 @ o3)))) \<and>
      (\<exists>o0 o1 o2 o3.
         recurse_collect_all_nodes fuel E tree c0 [] = Some (Inr o0) \<and>
         recurse_collect_all_nodes fuel E tree c1 [] = Some (Inr o1) \<and>
         recurse_collect_all_nodes fuel E tree c2 [] = Some (Inr o2) \<and>
         recurse_collect_all_nodes fuel E tree c3 [] = Some (Inr o3) \<and>
         recurse_collect_all_nodes fuel E tree start collected =
           Some (Inr (collected @ push_if_present E node [] @ o0 @ o1 @ o2 @ o3)) \<and>
         (clipstatus (get_bbox node) projection = Inside \<longrightarrow>
            collect_by_frustum fuel E clipstatus tree start projection collected =
              Some (Inr (push_if_present E node [] @ o0 @ o1 @ o2 @ o3))))"
proof -
  have inner: "Suc level < depth" using assms(4) by simp
  have v: "valid_cell depth level col row" using assms(4-6) by (simp add: valid_cell_def)
  note ct = client_tree [OF assms(1-3)]
  let ?node = "cell_node tree (level, col, row)"
  have vq: "valid_cell depth (Suc level) (quadrant_col col k) (quadrant_row row k)"
    if "k < 4" for k using v inner that by (rule valid_cell_quadrant)
  have fq: "depth - Suc level \<le> fuel" using assms(7) by simp
  have ch: "get_child_at ?node k = Inr (Some (quadrant_index level col row k))"
    if "k \<in> set [0, 1, 2, 3]" for k
    using linked_tree_get_child_at [OF ct(1) v inner that] by (simp add: cell_node_def)
  have own: "push_if_present E ?node [] = present_payloads E tree [(level, col, row)]"
    by (rule push_if_present_Nil)
  let ?L = "\<lambda>l c r. line_cells (\<lambda>b. test_intersection b line) tree depth l c r"
  let ?F = "\<lambda>l c r. frustum_cells (\<lambda>b. clipstatus b projection) tree depth l c r"
  have line: "collect_by_line_intersect fuel E test_intersection tree (node_index l c r) line old
      = Some (Inr (present_payloads E tree (?L l c r)))" if "valid_cell depth l c r" "depth - l \<le> fuel"
    for l c r old
    using recurse_line_intersect_linked [OF ct(1) that, of E test_intersection line "[]"]
    by (simp add: collect_by_line_intersect_def)
  have frus: "collect_by_frustum fuel E clipstatus tree (node_index l c r) projection old
      = Some (Inr (present_payloads E tree (?F l c r)))" if "valid_cell depth l c r" "depth - l \<le> fuel"
    for l c r old
    using recurse_collect_by_frustum_linked [OF ct(1) that, of E clipstatus projection "[]"]
    by (simp add: collect_by_frustum_def)
  note alln = recurse_collect_all_nodes_linked [OF ct(1), of _ _ _ fuel E]
  have Lh: "test_intersection (get_bbox ?node) line \<Longrightarrow>
      ?L level col row = (level, col, row) #
        ?L (Suc level) (quadrant_col col 0) (quadrant_row row 0) @
        ?L (Suc level) (quadrant_col col 1) (quadrant_row row 1) @
        ?L (Suc level) (quadrant_col col 2) (quadrant_row row 2) @
        ?L (Suc level) (quadrant_col col 3) (quadrant_row row 3)"
    using inner by (simp add: line_cells.simps [of _ tree depth level])
  have Fh: "clipstatus (get_bbox ?node) projection = Clipped \<Longrightarrow>
      ?F level col row = (level, col, row) #
        ?F (Suc level) (quadrant_col col 0) (quadrant_row row 0) @
        ?F (Suc level) (quadrant_col col 1) (quadrant_row row 1) @
        ?F (Suc level) (quadrant_col col 2) (quadrant_row row 2) @
        ?F (Suc level) (quadrant_col col 3) (quadrant_row row 3)"
    using inner by (simp add: frustum_cells.simps [of _ tree depth level])
  have Fi: "clipstatus (get_bbox ?node) projection = Inside \<Longrightarrow>
      ?F level col row = subtree_cells depth level col row"
    by (simp add: frustum_cells.simps [of _ tree depth level])
  have Sh: "subtree_cells depth level col row = (level, col, row) #
        subtree_cells depth (Suc level) (quadrant_col col 0) (quadrant_row row 0) @
        subtree_cells depth (Suc level) (quadrant_col col 1) (quadrant_row row 1) @
        subtree_cells depth (Suc level) (quadrant_col col 2) (quadrant_row row 2) @
        subtree_cells depth (Suc level) (quadrant_col col 3) (quadrant_row row 3)"
    using inner by (simp add: subtree_cells.simps [of depth level])
  have k4: "(0::nat) < 4" "(1::nat) < 4" "(2::nat) < 4" "(3::nat) < 4" by simp_all
  have m4: "(0::nat) \<in> set [0, 1, 2, 3]" "(1::nat) \<in> set [0, 1, 2, 3]"
    "(2::nat) \<in> set [0, 1, 2, 3]" "(3::nat) \<in> set [0, 1, 2, 3]" by simp_all
  have P1: "test_intersection (get_bbox ?node) line \<longrightarrow>
         (\<exists>o0 o1 o2 o3.
            collect_by_line_intersect fuel E test_intersection tree
              (quadrant_index level col row 0) line [] = Some (Inr o0) \<and>
            collect_by_line_intersect fuel E test_intersection tree
              (quadrant_index level col row 1) line [] = Some (Inr o1) \<and>
            collect_by_line_intersect fuel E test_intersection tree
              (quadrant_index level col row 2) line [] = Some (Inr o2) \<and>
            collect_by_line_intersect fuel E test_intersection tree
              (quadrant_index level col row 3) line [] = Some (Inr o3) \<and>
            collect_by_line_intersect fuel E test_intersection tree (node_index level col row)
              line collected =
              Some (Inr (push_if_present E ?node [] @ o0 @ o1 @ o2 @ o3)))"
    unfolding quadrant_index_def line [OF vq [OF k4(1)] fq] line [OF vq [OF k4(2)] fq]
      line [OF vq [OF k4(3)] fq] line [OF vq [OF k4(4)] fq] line [OF v assms(7)] own
    using Lh by (simp add: present_payloads_def)
  have P2: "clipstatus (get_bbox ?node) projection = Clipped \<longrightarrow>
         (\<exists>o0 o1 o2 o3.
            collect_by_frustum fuel E clipstatus tree
              (quadrant_index level col row 0) projection [] = Some (Inr o0) \<and>
            collect_by_frustum fuel E clipstatus tree
              (quadrant_index level col row 1) projection [] = Some (Inr o1) \<and>
            collect_by_frustum fuel E clipstatus tree
              (quadrant_index level col row 2) projection [] = Some (Inr o2) \<and>
            collect_by_frustum fuel E clipstatus tree
              (quadrant_index level col row 3) projection [] = Some (Inr o3) \<and>
            collect_by_frustum fuel E clipstatus tree (node_index level col row)
              projection collected =
              Some (Inr (push_if_present E ?node [] @ o0 @ o1 @ o2 @ o3)))"
    unfolding quadrant_index_def frus [OF vq [OF k4(1)] fq] frus [OF vq [OF k4(2)] fq]
      frus [OF vq [OF k4(3)] fq] frus [OF vq [OF k4(4)] fq] frus [OF v assms(7)] own
    using Fh by (simp add: present_payloads_def)
  have P3: "\<exists>o0 o1 o2 o3.
         recurse_collect_all_nodes fuel E tree (quadrant_index level col row 0) [] = Some (Inr o0) \<and>
         recurse_collect_all_nodes fuel E tree (quadrant_index level col row 1) [] = Some (Inr o1) \<and>
         recurse_collect_all_nodes fuel E tree (quadrant_index level col row 2) [] = Some (Inr o2) \<and>
         recurse_collect_all_nodes fuel E tree (quadrant_index level col row 3) [] = Some (Inr o3) \<and>
         recurse_collect_all_nodes fuel E tree (node_index level col row) collected =
           Some (Inr (collected @ push_if_present E ?node [] @ o0 @ o1 @ o2 @ o3)) \<and>
         (clipstatus (get_bbox ?node) projection = Inside \<longrightarrow>
            collect_by_frustum fuel E clipstatus tree (node_index level col row)
              projection collected =
              Some (Inr (push_if_present E ?node [] @ o0 @ o1 @ o2 @ o3)))"
    unfolding quadrant_index_def alln [OF vq [OF k4(1)] fq] alln [OF vq [OF k4(2)] fq]
      alln [OF vq [OF k4(3)] fq] alln [OF vq [OF k4(4)] fq] alln [OF v assms(7)]
      frus [OF v assms(7)] own
    using Fi by (simp add: Sh present_payloads_def)
  show ?thesis
    using ct(3,4) [OF v] ch [OF m4(1)] ch [OF m4(2)] ch [OF m4(3)] ch [OF m4(4)] P1 P2 P3
    by simp
qed

section \<open>The fixture tree of depth 2\<close>

lemma node_index_eval:
  "node_index 0 0 0 = 0" "node_index 1 0 0 = 1" "node_index 1 1 0 = 2"
  "node_index 1 0 1 = 3" "node_index 1 1 1 = 4"
  "node_index (Suc 0) 0 0 = 1" "node_index (Suc 0) (Suc 0) 0 = 2"
  "node_index (Suc 0) 0 (Suc 0) = 3" "node_index (Suc 0) (Suc 0) (Suc 0) = 4"
  by (simp_all add: node_index_def level_start_def)

lemma subtree_cells_fixture:
  "subtree_cells 2 0 0 0 = [(0, 0, 0), (1, 0, 0), (1, 1, 0), (1, 0, 1), (1, 1, 1)]"
  by (simp add: subtree_cells.simps [of 2] quadrant_col_def quadrant_row_def)

lemma fixture_client_tree:
  "\<exists>tree1 tree.
     initialize fixture_traits fixture_tree fixture_root_box 2 = Inr tree1 \<and>
     set_elements tree1 fixture_payloads = Inr tree \<and>
     get_element (cell_node tree (0, 0, 0)) = 10 \<and> get_element (cell_node tree (1, 0, 0)) = 20 \<and>
     get_element (cell_node tree (1, 1, 0)) = 30 \<and> get_element (cell_node tree (1, 0, 1)) = 40 \<and>
     get_element (cell_node tree (1, 1, 1)) = 0"
proof -
  have "(0::nat) < 2" "(2::nat) \<le> 15" by simp_all
  from initialize_post [OF this, of fixture_traits fixture_tree fixture_root_box]
  obtain tree1 where i: "initialize fixture_traits fixture_tree fixture_root_box 2 = Inr tree1"
    by blast
  have v: "valid_cell 2 1 1 1" by (simp add: valid_cell_def)
  note c = initialized_cell [OF i v]
  have len: "length (node_array tree1) = 5" using c(3) by (simp add: level_start_def)
  have e4: "element (node_array tree1 ! 4) = 0"
    using c(9) by (simp add: node_index_eval level_start_def fixture_tree_def resize_def
        Node_init_def fixture_traits_def)
  let ?t1 = "write_element tree1 0 10"
  let ?t2 = "write_element ?t1 1 20"
  let ?t3 = "write_element ?t2 2 30"
  let ?t4 = "write_element ?t3 3 40"
  have s: "set_elements tree1 fixture_payloads = Inr ?t4"
    using len by (simp add: fixture_payloads_def set_element_at_def get_node_by_index_def
        write_element_fields)
  have "get_element (cell_node ?t4 (0, 0, 0)) = 10" "get_element (cell_node ?t4 (1, 0, 0)) = 20"
    "get_element (cell_node ?t4 (1, 1, 0)) = 30" "get_element (cell_node ?t4 (1, 0, 1)) = 40"
    "get_element (cell_node ?t4 (1, 1, 1)) = 0"
    using len e4
    by (simp_all add: get_element_def cell_node_def node_index_eval write_element_node
        write_element_fields)
  with i s show ?thesis by blast
qed

lemma fixture_boxes:
  "cell_box fixture_traits fixture_root_box 2 0 0 0 =
     BBOX3 (VEC3 (- 100) (- 50) (- 100)) (VEC3 100 50 100)"
  "cell_box fixture_traits fixture_root_box 2 1 0 0 =
     BBOX3 (VEC3 (- 100) (- 50) (- 100)) (VEC3 0 50 0)"
  "cell_box fixture_traits fixture_root_box 2 1 1 0 =
     BBOX3 (VEC3 0 (- 50) (- 100)) (VEC3 100 50 0)"
  "cell_box fixture_traits fixture_root_box 2 1 0 1 =
     BBOX3 (VEC3 (- 100) (- 50) 0) (VEC3 0 50 100)"
  "cell_box fixture_traits fixture_root_box 2 1 1 1 =
     BBOX3 (VEC3 0 (- 50) 0) (VEC3 100 50 100)"
  by (simp_all add: cell_box_def fixture_defs)

theorem collect_by_frustum_inside_outside_witness:
  "\<exists>tree1 tree.
     initialize fixture_traits fixture_tree fixture_root_box 2 = Inr tree1 \<and>
     set_elements tree1 fixture_payloads = Inr tree \<and>
     collect_by_frustum 2 fixture_traits fixture_clipstatus tree 0 Inside [7] =
       Some (Inr [10, 20, 30, 40]) \<and>
     collect_by_frustum 2 fixture_traits fixture_clipstatus tree 0 Outside [7] = Some (Inr [])"
proof -
  from fixture_client_tree obtain tree1 tree
    where i: "initialize fixture_traits fixture_tree fixture_root_box 2 = Inr tree1"
      and s: "set_elements tree1 fixture_payloads = Inr tree"
      and e: "get_element (cell_node tree (0, 0, 0)) = 10"
        "get_element (cell_node tree (1, 0, 0)) = 20"
        "get_element (cell_node tree (1, 1, 0)) = 30"
        "get_element (cell_node tree (1, 0, 1)) = 40"
        "get_element (cell_node tree (1, 1, 1)) = 0"
    by blast
  have h: "node_array fixture_tree = []" "(0::nat) < 2" "(0::nat) < 2 ^ 0" "(2::nat) - 0 \<le> 2"
    by (simp_all add: fixture_tree_def)
  have c: "calculate_node_index 0 0 0 = Inr 0" by (simp add: index_eval)
  have p: "present_payloads fixture_traits tree (subtree_cells 2 0 0 0) = [10, 20, 30, 40]"
    using e by (simp add: subtree_cells_fixture present_payloads_def fixture_traits_def)
  from collect_by_frustum_inside_outside [OF h(1) i s h(2) h(3) h(3) h(4),
      of fixture_clipstatus Inside "[7]"]
    collect_by_frustum_inside_outside [OF h(1) i s h(2) h(3) h(3) h(4),
      of fixture_clipstatus Outside "[7]"]
  have "collect_by_frustum 2 fixture_traits fixture_clipstatus tree 0 Inside [7] =
       Some (Inr [10, 20, 30, 40])"
    "collect_by_frustum 2 fixture_traits fixture_clipstatus tree 0 Outside [7] = Some (Inr [])"
    using c p by (auto simp: fixture_clipstatus_def)
  with i s show ?thesis by blast
qed

theorem collect_by_line_intersect_result_witness:
  "\<exists>tree1 tree.
     initialize fixture_traits fixture_tree fixture_root_box 2 = Inr tree1 \<and>
     set_elements tree1 fixture_payloads = Inr tree \<and>
     collect_by_line_intersect 2 fixture_traits fixture_test_intersection tree 0 50 [7] =
       Some (Inr [10, 30]) \<and>
     collect_by_line_intersect 2 fixture_traits fixture_test_intersection tree 0 500 [7] =
       Some (Inr [])"
proof -
  from fixture_client_tree obtain tree1 tree
    where i: "initialize fixture_traits fixture_tree fixture_root_box 2 = Inr tree1"
      and s: "set_elements tree1 fixture_payloads = Inr tree"
      and e: "get_element (cell_node tree (0, 0, 0)) = 10"
        "get_element (cell_node tree (1, 0, 0)) = 20"
        "get_element (cell_node tree (1, 1, 0)) = 30"
        "get_element (cell_node tree (1, 0, 1)) = 40"
        "get_element (cell_node tree (1, 1, 1)) = 0"
    by blast
  have h: "node_array fixture_tree = []" "(0::nat) < 2" "(0::nat) < 2 ^ 0" "(2::nat) - 0 \<le> 2"
    by (simp_all add: fixture_tree_def)
  have c: "calculate_node_index 0 0 0 = Inr 0" by (simp add: index_eval)
  note ct = client_tree [OF h(1) i s]
  have b: "get_bbox (cell_node tree (0, 0, 0)) = cell_box fixture_traits fixture_root_box 2 0 0 0"
    "get_bbox (cell_node tree (1, 0, 0)) = cell_box fixture_traits fixture_root_box 2 1 0 0"
    "get_bbox (cell_node tree (1, 1, 0)) = cell_box fixture_traits fixture_root_box 2 1 1 0"
    "get_bbox (cell_node tree (1, 0, 1)) = cell_box fixture_traits fixture_root_box 2 1 0 1"
    "get_bbox (cell_node tree (1, 1, 1)) = cell_box fixture_traits fixture_root_box 2 1 1 1"
    by (simp_all add: ct(2) valid_cell_def)
  have ch0: "chain_accepted f tree 0 (0, 0, 0) \<longleftrightarrow> f (get_bbox (cell_node tree (0, 0, 0)))" for f
    by (rule chain_accepted_start)
  have ch1: "chain_accepted f tree 0 (1, c, r) \<longleftrightarrow>
       f (get_bbox (cell_node tree (0, 0, 0))) \<and> f (get_bbox (cell_node tree (1, c, r)))"
    if "c < 2" "r < 2" for f c r
  proof -
    have "k \<le> 1 \<longleftrightarrow> k = 0 \<or> k = 1" for k :: nat by auto
    then show ?thesis using that by (auto simp: chain_accepted_def)
  qed
  have two: "(0::nat) < 2" "(1::nat) < 2" by simp_all
  let ?f = "\<lambda>b. fixture_test_intersection b 50"
  have c0: "chain_accepted ?f tree 0 (0, 0, 0)"
    unfolding ch0 b fixture_boxes
    by (simp add: fixture_test_intersection_def BBOX3_def VEC3_def)
  have c1: "\<not> chain_accepted ?f tree 0 (1, 0, 0)"
    unfolding ch1 [OF two(1) two(1)] b fixture_boxes
    by (simp add: fixture_test_intersection_def BBOX3_def VEC3_def)
  have c2: "chain_accepted ?f tree 0 (1, 1, 0)"
    unfolding ch1 [OF two(2) two(1)] b fixture_boxes
    by (simp add: fixture_test_intersection_def BBOX3_def VEC3_def)
  have c3: "\<not> chain_accepted ?f tree 0 (1, 0, 1)"
    unfolding ch1 [OF two(1) two(2)] b fixture_boxes
    by (simp add: fixture_test_intersection_def BBOX3_def VEC3_def)
  have c4: "chain_accepted ?f tree 0 (1, 1, 1)"
    unfolding ch1 [OF two(2) two(2)] b fixture_boxes
    by (simp add: fixture_test_intersection_def BBOX3_def VEC3_def)
  have fl: "filter (chain_accepted ?f tree 0) (subtree_cells 2 0 0 0)
      = [(0, 0, 0), (1, 1, 0), (1, 1, 1)]"
    unfolding subtree_cells_fixture using c0 c1 c2 c3 c4 by simp
  have p: "present_payloads fixture_traits tree
      (filter (chain_accepted ?f tree 0) (subtree_cells 2 0 0 0)) = [10, 30]"
    unfolding fl using e by (simp add: present_payloads_def fixture_traits_def)
  have q: "\<not> fixture_test_intersection (get_bbox (cell_node tree (0, 0, 0))) 500"
    unfolding b fixture_boxes
    by (simp add: fixture_test_intersection_def BBOX3_def VEC3_def)
  have n: "get_node_by_index tree 0 = Inr (cell_node tree (0, 0, 0))"
    using ct(4) [of 0 0 0] by (simp add: valid_cell_def node_index_eval)
  from collect_by_line_intersect_result [OF h(1) i s h(2) h(3) h(3) h(4),
      of fixture_test_intersection 50 "[7]"]
    collect_by_line_intersect_result [OF h(1) i s h(2) h(3) h(3) h(4),
      of fixture_test_intersection 500 "[7]"]
  have "collect_by_line_intersect 2 fixture_traits fixture_test_intersection tree 0 50 [7] =
       Some (Inr [10, 30])"
    "collect_by_line_intersect 2 fixture_traits fixture_test_intersection tree 0 500 [7] =
       Some (Inr [])"
    using c p q n by auto
  with i s show ?thesis by blast
qed

theorem collectors_emit_in_preorder_witness:
  "\<exists>tree1 tree node c0 c1 c2 c3 o0 o1 o2 o3.
     initialize fixture_traits fixture_tree fixture_root_box 2 = Inr tree1 \<and>
     set_elements tree1 fixture_payloads = Inr tree \<and>
     get_node_by_index tree 0 = Inr node \<and>
     get_child_at node 0 = Inr (Some c0) \<and> get_child_at node 1 = Inr (Some c1) \<and>
     get_child_at node 2 = Inr (Some c2) \<and> get_child_at node 3 = Inr (Some c3) \<and>
     collect_by_line_intersect 2 fixture_traits fixture_test_intersection tree c0 50 [] = Some (Inr o0) \<and>
     collect_by_line_intersect 2 fixture_traits fixture_test_intersection tree c1 50 [] = Some (Inr o1) \<and>
     collect_by_line_intersect 2 fixture_traits fixture_test_intersection tree c2 50 [] = Some (Inr o2) \<and>
     collect_by_line_intersect 2 fixture_traits fixture_test_intersection tree c3 50 [] = Some (Inr o3) \<and>
     collect_by_line_intersect 2 fixture_traits fixture_test_intersection tree 0 50 [7] =
       Some (Inr (push_if_present fixture_traits node [] @ o0 @ o1 @ o2 @ o3))"
proof -
  from fixture_client_tree obtain tree1 tree
    where i: "initialize fixture_traits fixture_tree fixture_root_box 2 = Inr tree1"
      and s: "set_elements tree1 fixture_payloads = Inr tree"
    by blast
  have h: "node_array fixture_tree = []" "(0::nat) + 1 < 2" "(0::nat) < 2 ^ 0" "(2::nat) - 0 \<le> 2"
    by (simp_all add: fixture_tree_def)
  have c: "calculate_node_index 0 0 0 = Inr 0" by (simp add: index_eval)
  note ct = client_tree [OF h(1) i s]
  have n: "get_node_by_index tree 0 = Inr (cell_node tree (0, 0, 0))"
    using ct(4) [of 0 0 0] by (simp add: valid_cell_def node_index_eval)
  have b: "get_bbox (cell_node tree (0, 0, 0)) = cell_box fixture_traits fixture_root_box 2 0 0 0"
    by (simp add: ct(2) valid_cell_def)
  have t: "fixture_test_intersection (get_bbox (cell_node tree (0, 0, 0))) 50"
    unfolding b fixture_boxes
    by (simp add: fixture_test_intersection_def BBOX3_def VEC3_def)
  from collectors_emit_in_preorder [OF h(1) i s h(2) h(3) h(3) h(4),
      of fixture_test_intersection 50 "[7]" fixture_clipstatus Inside]
  show ?thesis using i s c n t by (auto simp del: One_nat_def)
qed

section \<open>The containment search on a linked tree\<close>

lemma find_cell_None:
  "find_cell tree q depth l c r = None \<longleftrightarrow> rejects (get_bbox (cell_node tree (l, c, r))) q"
  by (simp add: find_cell.simps [of tree q depth l] split: option.splits)

lemma first_found_None: "first_found f xs = None \<longleftrightarrow> (\<forall>x\<in>set xs. f x = None)"
  by (induction xs) (auto split: option.splits)

lemma first_found_Some: "first_found f xs = Some y \<Longrightarrow> \<exists>x\<in>set xs. f x = Some y"
  by (induction xs) (auto split: option.splits)

lemma find_containment_children_linked:
  assumes IH: "\<And>k. k \<in> set [0, 1, 2, 3] \<Longrightarrow>
      find_containment_node_recursive fuel tree (quadrant_index l c r k) q
        = Some (Inr (map_option (\<lambda>(l, c, r). node_index l c r)
             (find_cell tree q depth (Suc l) (quadrant_col c k) (quadrant_row r k))))"
  shows "set ks \<subseteq> set [0, 1, 2, 3] \<Longrightarrow>
    find_containment_children fuel tree (map (\<lambda>k. Some (quadrant_index l c r k)) ks) q
      = Some (Inr (map_option (\<lambda>(l, c, r). node_index l c r)
           (first_found (\<lambda>k. find_cell tree q depth (Suc l) (quadrant_col c k) (quadrant_row r k))
              ks)))"
proof (induction ks)
  case Nil
  then show ?case by simp
next
  case (Cons k ks)
  then have k: "k \<in> set [0, 1, 2, 3]" and ks: "set ks \<subseteq> set [0, 1, 2, 3]" by auto
  show ?case
    using IH [OF k] Cons.IH [OF ks] by (simp split: option.splits)
qed

lemma find_condition:
  "(get_x (get_min q) < get_x (get_min (bbox node)) \<or>
    get_x (get_max (bbox node)) < get_x (get_max q) \<or>
    get_y (get_min q) < get_y (get_min (bbox node)) \<or>
    get_y (get_max (bbox node)) < get_y (get_max q) \<or>
    get_z (get_min q) < get_z (get_min (bbox node)) \<or>
    get_z (get_max (bbox node)) < get_z (get_max q)) \<longleftrightarrow> rejects (get_bbox node) q"
  by (simp add: rejects_def get_bbox_def)

lemma find_containment_node_recursive_linked:
  assumes lt: "linked_tree depth tree"
  shows "valid_cell depth l c r \<Longrightarrow> depth - l \<le> fuel \<Longrightarrow>
    find_containment_node_recursive fuel tree (node_index l c r) q
      = Some (Inr (map_option (\<lambda>(l, c, r). node_index l c r) (find_cell tree q depth l c r)))"
proof (induction "depth - l" arbitrary: l c r fuel)
  case 0
  then show ?case by (simp add: valid_cell_def)
next
  case (Suc n)
  note v = Suc.prems(1)
  from Suc.hyps(2) Suc.prems(2) obtain f where f: "fuel = Suc f" by (cases fuel) auto
  note nl = linked_tree_index [OF lt v]
  note hc = linked_tree_has_children [OF lt v]
  let ?node = "node_array tree ! node_index l c r"
  have cn: "cell_node tree (l, c, r) = ?node" by (simp add: cell_node_def)
  show ?case
  proof (cases "rejects (get_bbox ?node) q")
    case True
    then show ?thesis
      using nl f by (simp add: find_cell.simps [of tree q depth l] cn find_condition Let_def)
  next
    case nr: False
    show ?thesis
    proof (cases "Suc l < depth")
      case False
      then show ?thesis
        using nl f hc nr by (simp add: find_cell.simps [of tree q depth l] cn find_condition Let_def)
    next
      case True
      have IH: "find_containment_node_recursive f tree (quadrant_index l c r k) q
        = Some (Inr (map_option (\<lambda>(l, c, r). node_index l c r)
             (find_cell tree q depth (Suc l) (quadrant_col c k) (quadrant_row r k))))"
        if k: "k \<in> set [0, 1, 2, 3]" for k
      proof -
        have vq: "valid_cell depth (Suc l) (quadrant_col c k) (quadrant_row r k)"
          using v True slot_less [OF k] by (rule valid_cell_quadrant)
        have n: "n = depth - Suc l" using Suc.hyps(2) by simp
        have fl: "depth - Suc l \<le> f" using Suc.prems(2) f by simp
        from Suc.hyps(1) [OF n vq fl] show ?thesis by (simp add: quadrant_index_def)
      qed
      have "set [0, 1, 2, 3] \<subseteq> set [0, 1, 2, 3::nat]" by simp
      from find_containment_children_linked [OF IH this]
      have ch: "find_containment_children f tree (children ?node) q
          = Some (Inr (map_option (\<lambda>(l, c, r). node_index l c r)
             (first_found (\<lambda>k. find_cell tree q depth (Suc l) (quadrant_col c k) (quadrant_row r k))
                [0, 1, 2, 3])))"
        using linked_tree_children(1) [OF lt v True] by simp
      have step: "find_containment_node_recursive (Suc f) tree (node_index l c r) q =
          (case find_containment_children f tree (children ?node) q of
                None \<Rightarrow> None
              | Some (Inl e) \<Rightarrow> Some (Inl e)
              | Some (Inr (Some contain_node)) \<Rightarrow> Some (Inr (Some contain_node))
              | Some (Inr None) \<Rightarrow> Some (Inr (Some (node_index l c r))))"
        using nl hc True nr by (simp add: find_condition Let_def)
      show ?thesis
        unfolding f step ch
        using nr True
        by (simp add: find_cell.simps [of tree q depth l] cn split: option.splits)
    qed
  qed
qed

lemma find_cell_Some:
  "valid_cell depth l c r \<Longrightarrow> find_cell tree q depth l c r = Some (l', c', r') \<Longrightarrow>
     valid_cell depth l' c' r' \<and> in_subtree l c r l' c' r' \<and>
     \<not> rejects (get_bbox (cell_node tree (l', c', r'))) q \<and>
     (Suc l' < depth \<longrightarrow>
        (\<forall>k<4. rejects (get_bbox (cell_node tree (Suc l', quadrant_col c' k, quadrant_row r' k))) q))"
proof (induction "depth - l" arbitrary: l c r)
  case 0
  then show ?case by (simp add: valid_cell_def)
next
  case (Suc n)
  note v = Suc.prems(1)
  have nr: "\<not> rejects (get_bbox (cell_node tree (l, c, r))) q"
    using Suc.prems(2) find_cell_None [of tree q depth l c r] by auto
  let ?f = "\<lambda>k. find_cell tree q depth (Suc l) (quadrant_col c k) (quadrant_row r k)"
  show ?case
  proof (cases "Suc l < depth")
    case False
    then have "(l', c', r') = (l, c, r)"
      using Suc.prems(2) nr by (simp add: find_cell.simps [of tree q depth l])
    then show ?thesis using v nr False by (simp add: in_subtree_refl)
  next
    case True
    show ?thesis
    proof (cases "first_found ?f [0, 1, 2, 3]")
      case None
      then have "(l', c', r') = (l, c, r)"
        using Suc.prems(2) nr True by (simp add: find_cell.simps [of tree q depth l])
      moreover have "rejects (get_bbox (cell_node tree (Suc l, quadrant_col c k, quadrant_row r k))) q"
        if "k < 4" for k
      proof -
        have "k \<in> set [0, 1, 2, 3]" using that by auto
        then have "?f k = None" using None unfolding first_found_None by blast
        then show ?thesis by (simp add: find_cell_None)
      qed
      ultimately show ?thesis using v nr by (simp add: in_subtree_refl)
    next
      case (Some cell)
      then have "cell = (l', c', r')"
        using Suc.prems(2) nr True by (simp add: find_cell.simps [of tree q depth l])
      with first_found_Some [OF Some] obtain k where k: "k \<in> set [0, 1, 2, 3]"
        and fk: "?f k = Some (l', c', r')" by blast
      have k4: "k < 4" using k by auto
      have vq: "valid_cell depth (Suc l) (quadrant_col c k) (quadrant_row r k)"
        using v True k4 by (rule valid_cell_quadrant)
      have n: "n = depth - Suc l" using Suc.hyps(2) by simp
      note r = Suc.hyps(1) [OF n vq fk]
      then have i': "in_subtree (Suc l) (quadrant_col c k) (quadrant_row r k) l' c' r'" by simp
      have "l < l'" using in_subtree_level [OF i'] by simp
      then have "in_subtree l c r l' c' r'"
        using in_subtree_step [of l l' c r c' r'] i' k4 by blast
      with r show ?thesis by simp
    qed
  qed
qed

lemma contains_box_not_rejects:
  fixes nb :: "'f::preorder bbox3"
  shows "contains_box nb q \<Longrightarrow> \<not> rejects nb q"
  by (auto simp: contains_box_def rejects_def less_le_not_le)

lemma contains_box_refl:
  fixes nb :: "'f::preorder bbox3"
  shows "contains_box nb nb"
  by (simp add: contains_box_def)

lemma not_rejects_contains_box:
  fixes nb :: "'f::linorder bbox3"
  shows "\<not> rejects nb q \<longleftrightarrow> contains_box nb q"
  by (auto simp: contains_box_def rejects_def not_less)

text \<open>
  C9. The test of \<open>find_containment_node_recursive\<close> rejects on strict inequalities
  only. On a tree obtained by \<open>initialize\<close> on empty storage followed by any calls of
  \<open>set_element\<close>, at the node of any cell: a query box whose minimum is componentwise
  greater than or equal to the minimum of the node's box and whose maximum is
  componentwise less than or equal to its maximum is not rejected, and the search
  started at that node returns a node and not null; in particular this holds for
  the query box equal to the node's own box. The fuel bounds the recursion depth:
  the number of levels from the node down is enough for the call to return.
\<close>

theorem boundary_touching_box_not_rejected:
  fixes E :: "('t, 'f::{plus,minus,times,inverse,preorder}) traits" and tree0 :: "('t, 'f) QuadTree"
  assumes "node_array tree0 = []" and "initialize E tree0 box depth = Inr tree1"
    and "set_elements tree1 payloads = Inr tree"
    and "level < depth" and "col < 2 ^ level" and "row < 2 ^ level"
    and "depth - level \<le> fuel"
  shows "\<exists>start node. calculate_node_index level col row = Inr start \<and>
      get_node_by_index tree start = Inr node \<and>
      (contains_box (get_bbox node) check_box \<longrightarrow>
         \<not> rejects (get_bbox node) check_box \<and>
         (\<exists>found. find_containment_node_recursive fuel tree start check_box
                    = Some (Inr (Some found)))) \<and>
      (\<exists>found. find_containment_node_recursive fuel tree start (get_bbox node)
                 = Some (Inr (Some found)))"
proof -
  have v: "valid_cell depth level col row" using assms(4-6) by (simp add: valid_cell_def)
  note ct = client_tree [OF assms(1-3)]
  let ?node = "cell_node tree (level, col, row)"
  have run: "find_containment_node_recursive fuel tree (node_index level col row) q
      = Some (Inr (map_option (\<lambda>(l, c, r). node_index l c r) (find_cell tree q depth level col row)))"
    for q using ct(1) v assms(7) by (rule find_containment_node_recursive_linked)
  have found: "\<exists>found. find_containment_node_recursive fuel tree (node_index level col row) q
      = Some (Inr (Some found))" if "\<not> rejects (get_bbox ?node) q" for q
  proof -
    from that have "find_cell tree q depth level col row \<noteq> None" by (simp add: find_cell_None)
    then show ?thesis unfolding run by auto
  qed
  have "contains_box (get_bbox ?node) check_box \<longrightarrow>
         \<not> rejects (get_bbox ?node) check_box \<and>
         (\<exists>found. find_containment_node_recursive fuel tree (node_index level col row) check_box
                    = Some (Inr (Some found)))"
    using found [of check_box] contains_box_not_rejects [of "get_bbox ?node" check_box] by blast
  moreover have "\<exists>found. find_containment_node_recursive fuel tree (node_index level col row)
      (get_bbox ?node) = Some (Inr (Some found))"
    using found [of "get_bbox ?node"] contains_box_not_rejects [OF contains_box_refl] by blast
  ultimately show ?thesis using ct(3,4) [OF v] by simp
qed

theorem boundary_touching_box_not_rejected_witness:
  "\<exists>tree1 tree node found.
     initialize fixture_traits fixture_tree fixture_root_box 2 = Inr tree1 \<and>
     set_elements tree1 fixture_payloads = Inr tree \<and>
     get_node_by_index tree 2 = Inr node \<and>
     get_bbox node = BBOX3 (VEC3 0 (- 50) (- 100)) (VEC3 100 50 0) \<and>
     contains_box (get_bbox node) (BBOX3 (VEC3 0 (- 50) (- 100)) (VEC3 100 50 0)) \<and>
     find_containment_node_recursive 1 tree 2 (BBOX3 (VEC3 0 (- 50) (- 100)) (VEC3 100 50 0))
       = Some (Inr (Some found))"
proof -
  from fixture_client_tree obtain tree1 tree
    where i: "initialize fixture_traits fixture_tree fixture_root_box 2 = Inr tree1"
      and s: "set_elements tree1 fixture_payloads = Inr tree"
    by blast
  have h: "node_array fixture_tree = []" "(1::nat) < 2" "(1::nat) < 2 ^ 1" "(0::nat) < 2 ^ 1"
    "(2::nat) - 1 \<le> 1"
    by (simp_all add: fixture_tree_def)
  have c: "calculate_node_index 1 1 0 = Inr 2" by (simp add: index_eval)
  note ct = client_tree [OF h(1) i s]
  have v: "valid_cell 2 1 1 0" by (simp add: valid_cell_def)
  have n: "get_node_by_index tree 2 = Inr (cell_node tree (1, 1, 0))"
    using ct(4) [OF v] by (simp add: node_index_eval)
  have b: "get_bbox (cell_node tree (1, 1, 0)) = BBOX3 (VEC3 0 (- 50) (- 100)) (VEC3 100 50 0)"
    unfolding ct(2) [OF v] by (rule fixture_boxes)
  have cb: "contains_box (get_bbox (cell_node tree (1, 1, 0)))
      (BBOX3 (VEC3 0 (- 50) (- 100)) (VEC3 100 50 0))"
    unfolding b by (rule contains_box_refl)
  from boundary_touching_box_not_rejected [OF h(1) i s h(2) h(3) h(4) h(5),
      of "BBOX3 (VEC3 0 (- 50) (- 100)) (VEC3 100 50 0)"]
  have "\<exists>found. find_containment_node_recursive 1 tree 2
      (BBOX3 (VEC3 0 (- 50) (- 100)) (VEC3 100 50 0)) = Some (Inr (Some found))"
    using c n cb by auto
  with i s n b cb show ?thesis by blast
qed

section \<open>Cells of one axis\<close>

lemma line_bound:
  assumes "l < d" "c < 2 ^ l"
  shows "(c + 1) * 2 ^ (d - 1 - l) \<le> (2::nat) ^ (d - 1)"
proof -
  have "(c + 1) * 2 ^ (d - 1 - l) \<le> 2 ^ l * (2::nat) ^ (d - 1 - l)"
    using assms(2) by (intro mult_le_mono1) simp
  also have "\<dots> = 2 ^ (d - 1)" using assms(1) by (simp add: power_add [symmetric])
  finally show ?thesis .
qed

lemma half_step:
  assumes "Suc l < d"
  shows "(2::nat) ^ (d - 1 - l) = 2 * 2 ^ (d - 1 - Suc l)"
proof -
  have "d - 1 - l = Suc (d - 1 - Suc l)" using assms by simp
  then show ?thesis by simp
qed

lemma axis_contains_all:
  fixes g :: "nat \<Rightarrow> 'f::preorder"
  assumes dec: "\<forall>j k. j \<le> k \<and> k \<le> 2 ^ (d - 1) \<longrightarrow> g k \<le> g j"
    and root: "axis_contains g d qlo qhi 0 0"
    and v: "l < d" "c < 2 ^ l"
  shows "axis_contains g d qlo qhi l c"
proof -
  have r: "g 0 \<le> qlo" "qhi \<le> g (2 ^ (d - 1))" using root by (simp_all add: axis_contains_def)
  have b: "(c + 1) * 2 ^ (d - 1 - l) \<le> (2::nat) ^ (d - 1)" using v by (rule line_bound)
  have "c * 2 ^ (d - 1 - l) \<le> (c + 1) * (2::nat) ^ (d - 1 - l)" by simp
  with b have b0: "c * 2 ^ (d - 1 - l) \<le> (2::nat) ^ (d - 1)" by linarith
  have "g (c * 2 ^ (d - 1 - l)) \<le> g 0" using dec b0 by simp
  then have 1: "g (c * 2 ^ (d - 1 - l)) \<le> qlo" using r(1) by (rule order_trans)
  have "g (2 ^ (d - 1)) \<le> g ((c + 1) * 2 ^ (d - 1 - l))" using dec b by simp
  with r(2) have 2: "qhi \<le> g ((c + 1) * 2 ^ (d - 1 - l))" by (rule order_trans)
  from 1 2 show ?thesis by (simp add: axis_contains_def)
qed

lemma axis_parent:
  fixes g :: "nat \<Rightarrow> 'f::preorder"
  assumes mono: "monotone_lines g (2 ^ (d - 1))"
    and sl: "Suc l < d" and c': "c' < 2 ^ Suc l"
    and root: "axis_contains g d qlo qhi 0 0"
    and child: "axis_contains g d qlo qhi (Suc l) c'"
  shows "axis_contains g d qlo qhi l (c' div 2)"
proof -
  have pc: "c' div 2 < 2 ^ l" using c' by simp
  have l: "l < d" using sl by simp
  from mono consider
    (inc) "\<forall>j k. j \<le> k \<and> k \<le> 2 ^ (d - 1) \<longrightarrow> g j \<le> g k"
    | (dec) "\<forall>j k. j \<le> k \<and> k \<le> 2 ^ (d - 1) \<longrightarrow> g k \<le> g j"
    unfolding monotone_lines_def by blast
  then show ?thesis
  proof cases
    case dec
    then show ?thesis using root l pc by (rule axis_contains_all)
  next
    case inc
    let ?h = "(2::nat) ^ (d - 1 - Suc l)"
    note hs = half_step [OF sl]
    have ch: "g (c' * ?h) \<le> qlo" "qhi \<le> g ((c' + 1) * ?h)"
      using child by (simp_all add: axis_contains_def)
    have bc: "(c' + 1) * ?h \<le> 2 ^ (d - 1)" using sl c' by (rule line_bound)
    have bp: "(c' div 2 + 1) * 2 ^ (d - 1 - l) \<le> (2::nat) ^ (d - 1)" using l pc by (rule line_bound)
    have "2 * (c' div 2) \<le> c'" by simp
    then have "2 * (c' div 2) * ?h \<le> c' * ?h" by (rule mult_le_mono1)
    then have lo: "(c' div 2) * 2 ^ (d - 1 - l) \<le> c' * ?h" unfolding hs by (simp add: mult.assoc mult.left_commute)
    have "c' + 1 \<le> 2 * (c' div 2 + 1)" by presburger
    then have "(c' + 1) * ?h \<le> 2 * (c' div 2 + 1) * ?h" by (rule mult_le_mono1)
    then have hi: "(c' + 1) * ?h \<le> (c' div 2 + 1) * 2 ^ (d - 1 - l)"
      unfolding hs by (simp add: mult.assoc mult.left_commute)
    have "c' * ?h \<le> (c' + 1) * ?h" by simp
    with bc have "c' * ?h \<le> 2 ^ (d - 1)" by linarith
    with inc lo have "g ((c' div 2) * 2 ^ (d - 1 - l)) \<le> g (c' * ?h)" by blast
    then have 1: "g ((c' div 2) * 2 ^ (d - 1 - l)) \<le> qlo" using ch(1) by (rule order_trans)
    from inc hi bp have "g ((c' + 1) * ?h) \<le> g ((c' div 2 + 1) * 2 ^ (d - 1 - l))" by blast
    with ch(2) have 2: "qhi \<le> g ((c' div 2 + 1) * 2 ^ (d - 1 - l))" by (rule order_trans)
    from 1 2 show ?thesis by (simp add: axis_contains_def)
  qed
qed

lemma axis_child:
  fixes g :: "nat \<Rightarrow> 'f::linorder"
  assumes mono: "monotone_lines g (2 ^ (d - 1))"
    and sl: "Suc l < d" and c: "c < 2 ^ l" and c': "c' < 2 ^ Suc l"
    and root: "axis_contains g d qlo qhi 0 0"
    and cur: "axis_contains g d qlo qhi l c"
    and other: "axis_contains g d qlo qhi (Suc l) c'"
  shows "axis_contains g d qlo qhi (Suc l) (2 * c) \<or> axis_contains g d qlo qhi (Suc l) (2 * c + 1)"
proof -
  have l: "l < d" using sl by simp
  from mono consider
    (inc) "\<forall>j k. j \<le> k \<and> k \<le> 2 ^ (d - 1) \<longrightarrow> g j \<le> g k"
    | (dec) "\<forall>j k. j \<le> k \<and> k \<le> 2 ^ (d - 1) \<longrightarrow> g k \<le> g j"
    unfolding monotone_lines_def by blast
  then show ?thesis
  proof cases
    case dec
    have "2 * c < 2 ^ Suc l" using c by simp
    with dec root sl have "axis_contains g d qlo qhi (Suc l) (2 * c)" by (rule axis_contains_all)
    then show ?thesis by simp
  next
    case inc
    let ?h = "(2::nat) ^ (d - 1 - Suc l)"
    let ?m = "(2 * c + 1) * ?h"
    note hs = half_step [OF sl]
    have cu: "g (2 * c * ?h) \<le> qlo" "qhi \<le> g ((2 * c + 2) * ?h)"
      using cur unfolding axis_contains_def hs by (simp_all add: mult.assoc mult.left_commute mult.commute)
    have ot: "g (c' * ?h) \<le> qlo" "qhi \<le> g ((c' + 1) * ?h)"
      using other by (simp_all add: axis_contains_def)
    have "2 * c + 1 < 2 ^ Suc l" using c by simp
    from line_bound [OF sl this] have b2: "(2 * c + 2) * ?h \<le> 2 ^ (d - 1)" by simp
    have "?m \<le> (2 * c + 2) * ?h" by (intro mult_le_mono1) simp
    with b2 have bm: "?m \<le> 2 ^ (d - 1)" by linarith
    have bc: "(c' + 1) * ?h \<le> 2 ^ (d - 1)" using sl c' by (rule line_bound)
    show ?thesis
    proof (cases "qhi \<le> g ?m")
      case True
      then have "axis_contains g d qlo qhi (Suc l) (2 * c)"
        using cu(1) by (simp add: axis_contains_def)
      then show ?thesis by simp
    next
      case False
      then have lt: "g ?m < qhi" by simp
      have "g ?m \<le> qlo"
      proof (rule ccontr)
        assume "\<not> g ?m \<le> qlo"
        then have "qlo < g ?m" by simp
        with ot(1) have s: "g (c' * ?h) < g ?m" by (rule le_less_trans)
        have "\<not> ?m \<le> c' * ?h"
        proof
          assume le: "?m \<le> c' * ?h"
          have "c' * ?h \<le> (c' + 1) * ?h" by simp
          with bc have "c' * ?h \<le> 2 ^ (d - 1)" by linarith
          with inc le have "g ?m \<le> g (c' * ?h)" by blast
          with s show False by simp
        qed
        then have "c' * ?h < ?m" by simp
        then have "c' < 2 * c + 1" unfolding mult_less_cancel2 by simp
        then have "c' + 1 \<le> 2 * c + 1" by simp
        then have "(c' + 1) * ?h \<le> ?m" by (rule mult_le_mono1)
        with inc bm have "g ((c' + 1) * ?h) \<le> g ?m" by blast
        with ot(2) have "qhi \<le> g ?m" by (rule order_trans)
        with lt show False by simp
      qed
      then have "axis_contains g d qlo qhi (Suc l) (2 * c + 1)"
        using cu(2) by (simp add: axis_contains_def)
      then show ?thesis by simp
    qed
  qed
qed

section \<open>Cells that contain a box\<close>

lemma exact_cell_line:
  fixes E :: "('t, 'f::{plus,times}) traits"
  assumes ex: "exact_products E" and d: "depth \<le> 15" and l: "l < depth" and j: "j \<le> 2 ^ l"
  shows "lo + (to_float E (int j) * to_float E (2 ^ (depth - 1 - l)) * base)
     = grid_line E lo base (j * 2 ^ (depth - 1 - l))"
proof -
  have "j * 2 ^ (depth - 1 - l) \<le> 2 ^ l * (2::nat) ^ (depth - 1 - l)"
    using j by (rule mult_le_mono1)
  also have "\<dots> = 2 ^ (depth - 1)" using l by (simp add: power_add [symmetric])
  also have "\<dots> \<le> (2::nat) ^ 14" using d by (intro power_increasing) auto
  finally have "int (j * 2 ^ (depth - 1 - l)) \<le> int (2 ^ 14)" by (simp only: of_nat_le_iff)
  then have b: "int j * 2 ^ (depth - 1 - l) \<le> 2 ^ 14" by simp
  have "to_float E (int j) * to_float E (2 ^ (depth - 1 - l))
      = to_float E (int j * 2 ^ (depth - 1 - l))"
    using ex b unfolding exact_products_def by simp
  then show ?thesis by (simp add: grid_line_def)
qed

lemma contains_cell_box:
  fixes E :: "('t, 'f::{plus,minus,times,inverse,ord}) traits"
  assumes ex: "exact_products E" and d: "depth \<le> 15" and v: "valid_cell depth l c r"
  shows "contains_box (cell_box E box depth l c r) q \<longleftrightarrow>
    axis_contains
      (grid_line E (get_x (get_min box))
         ((get_x (get_max box) - get_x (get_min box)) / to_float E (2 ^ (depth - 1))))
      depth (get_x (get_min q)) (get_x (get_max q)) l c \<and>
    get_y (get_min box) \<le> get_y (get_min q) \<and> get_y (get_max q) \<le> get_y (get_max box) \<and>
    axis_contains
      (grid_line E (get_z (get_min box))
         ((get_z (get_max box) - get_z (get_min box)) / to_float E (2 ^ (depth - 1))))
      depth (get_z (get_min q)) (get_z (get_max q)) l r"
proof -
  have l: "l < depth" and c: "c \<le> 2 ^ l" "c + 1 \<le> 2 ^ l" and r: "r \<le> 2 ^ l" "r + 1 \<le> 2 ^ l"
    using v by (simp_all add: valid_cell_def)
  have i: "int c + 1 = int (c + 1)" "int r + 1 = int (r + 1)" by simp_all
  note e = exact_cell_line [OF ex d l]
  show ?thesis
    unfolding cell_box_def Let_def contains_box_def axis_contains_def i
      e [OF c(1)] e [OF c(2)] e [OF r(1)] e [OF r(2)]
    by (auto simp: BBOX3_def VEC3_def)
qed

lemma cell_parent:
  fixes E :: "('t, 'f::{plus,minus,times,inverse,linorder}) traits"
  assumes ex: "exact_products E" and mono: "monotone_grid E box depth" and d: "depth \<le> 15"
    and v: "valid_cell depth (Suc l) c r"
    and root: "contains_box (cell_box E box depth 0 0 0) q"
    and cell: "contains_box (cell_box E box depth (Suc l) c r) q"
  shows "valid_cell depth l (c div 2) (r div 2) \<and>
    contains_box (cell_box E box depth l (c div 2) (r div 2)) q"
proof -
  have sl: "Suc l < depth" and c: "c < 2 ^ Suc l" and r: "r < 2 ^ Suc l"
    using v by (simp_all add: valid_cell_def)
  from c r have "c < 2 ^ l * 2" "r < 2 ^ l * 2" by (simp_all add: mult.commute)
  then have "c div 2 < 2 ^ l" "r div 2 < 2 ^ l" by (simp_all add: less_mult_imp_div_less)
  then have vp: "valid_cell depth l (c div 2) (r div 2)" using sl by (simp add: valid_cell_def)
  have v0: "valid_cell depth 0 0 0" using sl by (simp add: valid_cell_def)
  note m = mono [unfolded monotone_grid_def]
  show ?thesis
    using vp root cell
    unfolding contains_cell_box [OF ex d v] contains_cell_box [OF ex d vp]
      contains_cell_box [OF ex d v0]
    using axis_parent [OF conjunct1 [OF m] sl c] axis_parent [OF conjunct2 [OF m] sl r]
    by blast
qed

lemma cell_child:
  fixes E :: "('t, 'f::{plus,minus,times,inverse,linorder}) traits"
  assumes ex: "exact_products E" and mono: "monotone_grid E box depth" and d: "depth \<le> 15"
    and v: "valid_cell depth l c r" and v': "valid_cell depth (Suc l) c' r'"
    and root: "contains_box (cell_box E box depth 0 0 0) q"
    and cur: "contains_box (cell_box E box depth l c r) q"
    and other: "contains_box (cell_box E box depth (Suc l) c' r') q"
  shows "\<exists>k<4. contains_box (cell_box E box depth (Suc l) (quadrant_col c k) (quadrant_row r k)) q"
proof -
  have sl: "Suc l < depth" and c': "c' < 2 ^ Suc l" and r': "r' < 2 ^ Suc l"
    using v' by (simp_all add: valid_cell_def)
  have c: "c < 2 ^ l" and r: "r < 2 ^ l" using v by (simp_all add: valid_cell_def)
  have v0: "valid_cell depth 0 0 0" using sl by (simp add: valid_cell_def)
  note m = mono [unfolded monotone_grid_def]
  let ?gx = "grid_line E (get_x (get_min box))
         ((get_x (get_max box) - get_x (get_min box)) / to_float E (2 ^ (depth - 1)))"
  let ?gz = "grid_line E (get_z (get_min box))
         ((get_z (get_max box) - get_z (get_min box)) / to_float E (2 ^ (depth - 1)))"
  note R = root [unfolded contains_cell_box [OF ex d v0]]
  note C = cur [unfolded contains_cell_box [OF ex d v]]
  note O = other [unfolded contains_cell_box [OF ex d v']]
  from axis_child [OF conjunct1 [OF m] sl c c', of "get_x (get_min q)" "get_x (get_max q)"] R C O
  obtain i where i: "i < 2"
    "axis_contains ?gx depth (get_x (get_min q)) (get_x (get_max q)) (Suc l) (2 * c + i)"
    by (metis add.right_neutral one_less_numeral_iff pos2 semiring_norm(76))
  from axis_child [OF conjunct2 [OF m] sl r r', of "get_z (get_min q)" "get_z (get_max q)"] R C O
  obtain j where j: "j < 2"
    "axis_contains ?gz depth (get_z (get_min q)) (get_z (get_max q)) (Suc l) (2 * r + j)"
    by (metis add.right_neutral one_less_numeral_iff pos2 semiring_norm(76))
  define k where "k = i + 2 * j"
  have k4: "k < 4" using i(1) j(1) by (simp add: k_def)
  have qc: "quadrant_col c k = 2 * c + i" using i(1) by (simp add: quadrant_col_def k_def)
  have qr: "quadrant_row r k = 2 * r + j" using i(1) by (simp add: quadrant_row_def k_def)
  have vk: "valid_cell depth (Suc l) (quadrant_col c k) (quadrant_row r k)"
    using v sl k4 by (rule valid_cell_quadrant)
  have vk': "valid_cell depth (Suc l) (2 * c + i) (2 * r + j)" using vk qc qr by simp
  have "contains_box (cell_box E box depth (Suc l) (2 * c + i) (2 * r + j)) q"
    unfolding contains_cell_box [OF ex d vk'] using i(2) j(2) O by blast
  then have "contains_box (cell_box E box depth (Suc l) (quadrant_col c k) (quadrant_row r k)) q"
    by (simp only: qc qr)
  with k4 show ?thesis by blast
qed

lemma cell_ancestor:
  fixes E :: "('t, 'f::{plus,minus,times,inverse,linorder}) traits"
  assumes ex: "exact_products E" and mono: "monotone_grid E box depth" and d: "depth \<le> 15"
    and root: "contains_box (cell_box E box depth 0 0 0) q"
  shows "l0 \<le> l \<Longrightarrow> valid_cell depth l c r \<Longrightarrow> contains_box (cell_box E box depth l c r) q \<Longrightarrow>
    \<exists>c' r'. valid_cell depth l0 c' r' \<and> contains_box (cell_box E box depth l0 c' r') q"
proof (induction "l - l0" arbitrary: l c r)
  case 0
  then have "l = l0" by simp
  with 0 show ?case by blast
next
  case (Suc n)
  then obtain l' where l: "l = Suc l'" by (cases l) auto
  from cell_parent [OF ex mono d Suc.prems(2) [unfolded l] root Suc.prems(3) [unfolded l]]
  have p: "valid_cell depth l' (c div 2) (r div 2)"
    "contains_box (cell_box E box depth l' (c div 2) (r div 2)) q" by simp_all
  have "n = l' - l0" "l0 \<le> l'" using Suc.hyps(2) Suc.prems(1) l by simp_all
  from Suc.hyps(1) [OF this p] show ?case .
qed

lemma deepest_cell:
  fixes E :: "('t, 'f::{plus,minus,times,inverse,linorder}) traits"
  assumes ex: "exact_products E" and mono: "monotone_grid E box depth" and d: "depth \<le> 15"
    and root: "contains_box (cell_box E box depth 0 0 0) q"
    and v: "valid_cell depth l c r" and cur: "contains_box (cell_box E box depth l c r) q"
    and nochild: "Suc l < depth \<Longrightarrow>
      \<forall>k<4. \<not> contains_box (cell_box E box depth (Suc l) (quadrant_col c k) (quadrant_row r k)) q"
    and v': "valid_cell depth l' c' r'" and other: "contains_box (cell_box E box depth l' c' r') q"
  shows "l' \<le> l"
proof (rule ccontr)
  assume "\<not> l' \<le> l"
  then have le: "Suc l \<le> l'" by simp
  from cell_ancestor [OF ex mono d root le v' other]
  obtain c'' r'' where a: "valid_cell depth (Suc l) c'' r''"
    "contains_box (cell_box E box depth (Suc l) c'' r'') q" by blast
  then have sl: "Suc l < depth" by (simp add: valid_cell_def)
  from cell_child [OF ex mono d v a(1) root cur a(2)] nochild [OF sl]
  show False by blast
qed

lemma rejects_iff:
  fixes nb :: "'f::linorder bbox3"
  shows "rejects nb q \<longleftrightarrow> \<not> contains_box nb q"
  using not_rejects_contains_box [of nb q] by blast

text \<open>
  C1. On a tree obtained by \<open>initialize\<close> on empty storage followed by any calls of
  \<open>set_element\<close>, \<open>find_containment_node\<close> returns for every query box (the tree depth
  is enough fuel). The result is null exactly when the root's test rejects the query
  box, which is exactly when the root's box does not contain it on all three axes.
  Otherwise the result is the node of a cell of the tree whose box contains the query
  box and none of whose children has a box that contains it; and when the products of
  the conversions of small integers are exact and the grid lines of the tree are
  monotone along each axis, no node at a deeper level has a box that contains the
  query box.
\<close>

theorem find_containment_node_smallest:
  fixes E :: "('t, 'f::{plus,minus,times,inverse,linorder}) traits" and tree0 :: "('t, 'f) QuadTree"
  assumes "node_array tree0 = []" and "initialize E tree0 box depth = Inr tree1"
    and "set_elements tree1 payloads = Inr tree"
    and "depth \<le> fuel"
  shows "\<exists>root_node result.
      get_root_node tree = Inr root_node \<and>
      find_containment_node fuel tree check_box = Some (Inr result) \<and>
      (result = None \<longleftrightarrow> rejects (get_bbox root_node) check_box) \<and>
      (result = None \<longleftrightarrow> \<not> contains_box (get_bbox root_node) check_box) \<and>
      (\<forall>found. result = Some found \<longrightarrow>
         (\<exists>level col row node.
            level < depth \<and> col < 2 ^ level \<and> row < 2 ^ level \<and>
            calculate_node_index level col row = Inr found \<and>
            get_node_by_index tree found = Inr node \<and>
            contains_box (get_bbox node) check_box \<and>
            (\<forall>k child_index child.
               k < 4 \<and> get_child_at node k = Inr (Some child_index) \<and>
               get_node_by_index tree child_index = Inr child
               \<longrightarrow> \<not> contains_box (get_bbox child) check_box) \<and>
            (exact_products E \<and> monotone_grid E box depth \<longrightarrow>
               (\<forall>level' col' row' index' node'.
                  level' < depth \<and> col' < 2 ^ level' \<and> row' < 2 ^ level' \<and>
                  calculate_node_index level' col' row' = Inr index' \<and>
                  get_node_by_index tree index' = Inr node' \<and>
                  contains_box (get_bbox node') check_box
                  \<longrightarrow> level' \<le> level))))"
proof -
  note ct = client_tree [OF assms(1-3)]
  have dp: "0 < depth" "depth \<le> 15" using initialize_Inr_depth [OF assms(2)] by simp_all
  have v0: "valid_cell depth 0 0 0" using dp(1) by (simp add: valid_cell_def)
  have i0: "node_index 0 0 0 = 0" by (simp add: node_index_def level_start_0)
  let ?root = "cell_node tree (0, 0, 0)"
  let ?res = "find_cell tree check_box depth 0 0 0"
  have ne: "node_array tree \<noteq> []" using linked_tree_index [OF ct(1) v0] by auto
  have root: "get_root_node tree = Inr ?root"
    using ne by (simp add: get_root_node_def cell_node_def i0)
  have "depth - 0 \<le> fuel" using assms(4) by simp
  from find_containment_node_recursive_linked [OF ct(1) v0 this, of check_box]
  have run: "find_containment_node fuel tree check_box
      = Some (Inr (map_option (\<lambda>(l, c, r). node_index l c r) ?res))"
    using ne root by (simp add: find_containment_node_def i0)
  have none: "map_option (\<lambda>(l, c, r). node_index l c r) ?res = None
      \<longleftrightarrow> rejects (get_bbox ?root) check_box"
    by (simp add: find_cell_None)
  have some: "\<exists>level col row node.
            level < depth \<and> col < 2 ^ level \<and> row < 2 ^ level \<and>
            calculate_node_index level col row = Inr found \<and>
            get_node_by_index tree found = Inr node \<and>
            contains_box (get_bbox node) check_box \<and>
            (\<forall>k child_index child.
               k < 4 \<and> get_child_at node k = Inr (Some child_index) \<and>
               get_node_by_index tree child_index = Inr child
               \<longrightarrow> \<not> contains_box (get_bbox child) check_box) \<and>
            (exact_products E \<and> monotone_grid E box depth \<longrightarrow>
               (\<forall>level' col' row' index' node'.
                  level' < depth \<and> col' < 2 ^ level' \<and> row' < 2 ^ level' \<and>
                  calculate_node_index level' col' row' = Inr index' \<and>
                  get_node_by_index tree index' = Inr node' \<and>
                  contains_box (get_bbox node') check_box
                  \<longrightarrow> level' \<le> level))"
    if f: "map_option (\<lambda>(l, c, r). node_index l c r) ?res = Some found" for found
  proof -
    from f obtain l c r where res: "?res = Some (l, c, r)" and fd: "found = node_index l c r"
      by auto
    note fs = find_cell_Some [OF v0 res]
    then have v: "valid_cell depth l c r" by simp
    let ?node = "cell_node tree (l, c, r)"
    have cb: "contains_box (get_bbox ?node) check_box"
      using fs by (simp add: rejects_iff)
    have rootc: "contains_box (get_bbox ?root) check_box"
      using res find_cell_None [of tree check_box depth 0 0 0]
      by (simp add: rejects_iff)
    have kids: "\<not> contains_box (get_bbox child) check_box"
      if k: "k < 4" and g: "get_child_at ?node k = Inr (Some child_index)"
        and n: "get_node_by_index tree child_index = Inr child" for k child_index child
    proof -
      have inner: "Suc l < depth"
      proof (rule ccontr)
        assume "\<not> Suc l < depth"
        from linked_tree_children(2) [OF ct(1) v this] k g show False
          by (auto simp: get_child_at_def cell_node_def nth_Cons split: nat.splits)
      qed
      have ks: "k \<in> set [0, 1, 2, 3]" using k by auto
      from linked_tree_get_child_at [OF ct(1) v inner ks] g
      have ci: "child_index = quadrant_index l c r k" by (simp add: cell_node_def)
      have vq: "valid_cell depth (Suc l) (quadrant_col c k) (quadrant_row r k)"
        using v inner k by (rule valid_cell_quadrant)
      from ct(4) [OF vq] n ci
      have "child = cell_node tree (Suc l, quadrant_col c k, quadrant_row r k)"
        by (simp add: quadrant_index_def)
      then show ?thesis using fs inner k by (simp add: rejects_iff)
    qed
    have deep: "level' \<le> l"
      if ex: "exact_products E" and mono: "monotone_grid E box depth"
        and v': "valid_cell depth level' col' row'"
        and c': "calculate_node_index level' col' row' = Inr index'"
        and n': "get_node_by_index tree index' = Inr node'"
        and cb': "contains_box (get_bbox node') check_box"
      for level' col' row' index' node'
    proof -
      have "index' = node_index level' col' row'" using ct(3) [OF v'] c' by simp
      with ct(4) [OF v'] n' have "node' = cell_node tree (level', col', row')" by simp
      with cb' have o: "contains_box (cell_box E box depth level' col' row') check_box"
        by (simp add: ct(2) [OF v'])
      have r: "contains_box (cell_box E box depth 0 0 0) check_box"
        using rootc by (simp add: ct(2) [OF v0])
      have cu: "contains_box (cell_box E box depth l c r) check_box"
        using cb by (simp add: ct(2) [OF v])
      have nc: "\<forall>k<4. \<not> contains_box (cell_box E box depth (Suc l) (quadrant_col c k)
          (quadrant_row r k)) check_box" if inner: "Suc l < depth"
      proof (intro allI impI)
        fix k :: nat assume k: "k < 4"
        have vq: "valid_cell depth (Suc l) (quadrant_col c k) (quadrant_row r k)"
          using v inner k by (rule valid_cell_quadrant)
        show "\<not> contains_box (cell_box E box depth (Suc l) (quadrant_col c k)
          (quadrant_row r k)) check_box"
          using fs inner k by (simp add: rejects_iff ct(2) [OF vq, symmetric])
      qed
      from deepest_cell [OF ex mono dp(2) r v cu nc v' o] show ?thesis .
    qed
    have "l < depth" "c < 2 ^ l" "r < 2 ^ l" using v by (simp_all add: valid_cell_def)
    moreover have "calculate_node_index l c r = Inr found" using ct(3) [OF v] fd by simp
    moreover have "get_node_by_index tree found = Inr ?node" using ct(4) [OF v] fd by simp
    ultimately show ?thesis
      using cb kids deep by (intro exI [of _ l] exI [of _ c] exI [of _ r] exI [of _ ?node])
        (auto simp: valid_cell_def)
  qed
  show ?thesis
    using root run none some
    by (intro exI [of _ ?root] exI [of _ "map_option (\<lambda>(l, c, r). node_index l c r) ?res"])
      (simp add: rejects_iff)
qed

text \<open>Exact arithmetic (an ordered field) meets both conditions on the grid.\<close>

lemma exact_arithmetic_grid:
  fixes E :: "('t, 'f::linordered_field) traits"
  assumes "to_float E = of_int"
  shows "exact_products E" and "monotone_grid E box depth"
proof -
  show "exact_products E" by (simp add: exact_products_def assms)
  have m: "monotone_lines (grid_line E lo base) n" for lo base :: 'f and n
  proof (cases "0 \<le> base")
    case True
    have "grid_line E lo base j \<le> grid_line E lo base k" if "j \<le> k" for j k
      using that True by (simp add: grid_line_def assms mult_right_mono)
    then show ?thesis by (simp add: monotone_lines_def)
  next
    case False
    then have "base \<le> 0" by simp
    then have "grid_line E lo base k \<le> grid_line E lo base j" if "j \<le> k" for j k
      using that by (simp add: grid_line_def assms mult_right_mono_neg)
    then show ?thesis by (simp add: monotone_lines_def)
  qed
  then show "monotone_grid E box depth" by (simp add: monotone_grid_def)
qed

theorem find_containment_node_smallest_witness:
  "\<exists>tree1 tree.
     initialize fixture_traits fixture_tree fixture_root_box 2 = Inr tree1 \<and>
     set_elements tree1 fixture_payloads = Inr tree \<and>
     exact_products fixture_traits \<and> monotone_grid fixture_traits fixture_root_box 2 \<and>
     find_containment_node 2 tree (BBOX3 (VEC3 5 (- 5) 5) (VEC3 15 5 15)) = Some (Inr (Some 4)) \<and>
     find_containment_node 2 tree (BBOX3 (VEC3 190 0 0) (VEC3 210 10 10)) = Some (Inr None)"
proof -
  from fixture_client_tree obtain tree1 tree
    where i: "initialize fixture_traits fixture_tree fixture_root_box 2 = Inr tree1"
      and s: "set_elements tree1 fixture_payloads = Inr tree"
    by blast
  have h: "node_array fixture_tree = []" "(2::nat) \<le> 2" by (simp_all add: fixture_tree_def)
  have tf: "to_float fixture_traits = of_int" by (simp add: fixture_traits_def)
  note g = exact_arithmetic_grid(1) [OF tf] exact_arithmetic_grid(2) [OF tf, of fixture_root_box 2]
  note ct = client_tree [OF h(1) i s]
  have v: "valid_cell 2 0 0 0" "valid_cell 2 1 0 0" "valid_cell 2 1 1 0" "valid_cell 2 1 0 1"
    "valid_cell 2 1 1 1" by (simp_all add: valid_cell_def)
  have b: "get_bbox (cell_node tree (0, 0, 0)) = BBOX3 (VEC3 (- 100) (- 50) (- 100)) (VEC3 100 50 100)"
    "get_bbox (cell_node tree (1, 0, 0)) = BBOX3 (VEC3 (- 100) (- 50) (- 100)) (VEC3 0 50 0)"
    "get_bbox (cell_node tree (1, 1, 0)) = BBOX3 (VEC3 0 (- 50) (- 100)) (VEC3 100 50 0)"
    "get_bbox (cell_node tree (1, 0, 1)) = BBOX3 (VEC3 (- 100) (- 50) 0) (VEC3 0 50 100)"
    "get_bbox (cell_node tree (1, 1, 1)) = BBOX3 (VEC3 0 (- 50) 0) (VEC3 100 50 100)"
    unfolding ct(2) [OF v(1)] ct(2) [OF v(2)] ct(2) [OF v(3)] ct(2) [OF v(4)] ct(2) [OF v(5)]
    by (rule fixture_boxes)+
  have root: "get_root_node tree = Inr (cell_node tree (0, 0, 0))"
    using ct(4) [OF v(1)] by (simp add: get_root_node_def get_node_by_index_def node_index_eval
        split: if_splits)
  let ?q = "BBOX3 (VEC3 5 (- 5) 5) (VEC3 15 5 15) :: real bbox3"
  let ?o = "BBOX3 (VEC3 190 0 0) (VEC3 210 10 10) :: real bbox3"
  have cq: "contains_box (get_bbox (cell_node tree (0, 0, 0))) ?q"
    "\<not> contains_box (get_bbox (cell_node tree (1, 0, 0))) ?q"
    "\<not> contains_box (get_bbox (cell_node tree (1, 1, 0))) ?q"
    "\<not> contains_box (get_bbox (cell_node tree (1, 0, 1))) ?q"
    "contains_box (get_bbox (cell_node tree (1, 1, 1))) ?q"
    "\<not> contains_box (get_bbox (cell_node tree (0, 0, 0))) ?o"
    unfolding b by (simp_all add: contains_box_def BBOX3_def VEC3_def)
  from find_containment_node_smallest [OF h(1) i s h(2), of ?o] root cq(6)
  have out: "find_containment_node 2 tree ?o = Some (Inr None)" by auto
  from find_containment_node_smallest [OF h(1) i s h(2), of ?q]
  obtain root_node result where rn: "get_root_node tree = Inr root_node"
    and r0: "find_containment_node 2 tree ?q = Some (Inr result)"
    and rc: "result = None \<longleftrightarrow> \<not> contains_box (get_bbox root_node) ?q"
    and rs: "\<forall>found. result = Some found \<longrightarrow> (\<exists>level col row node.
        level < 2 \<and> col < 2 ^ level \<and> row < 2 ^ level \<and>
        calculate_node_index level col row = Inr found \<and>
        get_node_by_index tree found = Inr node \<and>
        contains_box (get_bbox node) ?q \<and>
        (\<forall>k child_index child. k < 4 \<and> get_child_at node k = Inr (Some child_index) \<and>
            get_node_by_index tree child_index = Inr child \<longrightarrow>
            \<not> contains_box (get_bbox child) ?q) \<and>
        (exact_products fixture_traits \<and> monotone_grid fixture_traits fixture_root_box 2 \<longrightarrow>
          (\<forall>level' col' row' index' node'.
                  level' < 2 \<and> col' < 2 ^ level' \<and> row' < 2 ^ level' \<and>
                  calculate_node_index level' col' row' = Inr index' \<and>
                  get_node_by_index tree index' = Inr node' \<and>
                  contains_box (get_bbox node') ?q
                  \<longrightarrow> level' \<le> level)))"
    by blast
  from rn root have "root_node = cell_node tree (0, 0, 0)" by simp
  with rc cq(1) obtain found where rf: "result = Some found" by auto
  from rs rf obtain level col row node where
        c: "level < 2" "col < 2 ^ level" "row < 2 ^ level"
      "calculate_node_index level col row = Inr found"
      "get_node_by_index tree found = Inr node" "contains_box (get_bbox node) ?q"
    and deep: "exact_products fixture_traits \<and> monotone_grid fixture_traits fixture_root_box 2 \<longrightarrow>
        (\<forall>level' col' row' index' node'.
                  level' < 2 \<and> col' < 2 ^ level' \<and> row' < 2 ^ level' \<and>
                  calculate_node_index level' col' row' = Inr index' \<and>
                  get_node_by_index tree index' = Inr node' \<and>
                  contains_box (get_bbox node') ?q
                  \<longrightarrow> level' \<le> level)"
    by blast
  from r0 rf have r: "find_containment_node 2 tree ?q = Some (Inr (Some found))" by simp
  have "(1::nat) < 2 \<and> (1::nat) < 2 ^ 1 \<and> (1::nat) < 2 ^ 1 \<and>
      calculate_node_index 1 1 1 = Inr (node_index 1 1 1) \<and>
      get_node_by_index tree (node_index 1 1 1) = Inr (cell_node tree (1, 1, 1)) \<and>
      contains_box (get_bbox (cell_node tree (1, 1, 1))) ?q"
    using ct(3) [OF v(5)] ct(4) [OF v(5)] cq(5) by simp
  with deep g have "1 \<le> level" by blast
  with c(1) have l1: "level = 1" by simp
  have vc: "valid_cell 2 1 col row" using c(2,3) l1 by (simp add: valid_cell_def)
  have fd: "found = node_index 1 col row" using ct(3) [OF vc] c(4) l1 by simp
  then have nd: "node = cell_node tree (1, col, row)" using ct(4) [OF vc] c(5) by simp
  have "col = 0 \<or> col = 1" "row = 0 \<or> row = 1" using c(2,3) l1 by auto
  then have "col = 1 \<and> row = 1" using c(6) nd cq(2,3,4) by auto
  then have "found = 4" using fd by (simp add: node_index_eval)
  with r out i s g show ?thesis by blast
qed

section \<open>Initializing a tree again\<close>

lemma resize_keeps:
  "i < n \<Longrightarrow> i < length xs \<Longrightarrow> resize d xs n ! i = xs ! i"
  by (simp add: resize_def nth_append)

lemma resize_fills:
  "i < n \<Longrightarrow> length xs \<le> i \<Longrightarrow> resize d xs n ! i = d"
  by (simp add: resize_def nth_append)

text \<open>
  C5. After \<open>initialize\<close> the nodes of level \<open>depth - 1\<close> do not always have four null
  child slots. The fixture tree is initialized with depth 2 and then again with the
  same box and depth 1. The tree then has depth 1 and one node, the root, whose level
  0 is \<open>depth - 1\<close>; its four child slots still hold the nodes 1 to 4 of the first
  tree, which are not in the node array any more, and \<open>has_children\<close> is true.
\<close>

theorem initialize_again_keeps_child_pointers:
  "\<exists>tree1 tree2 node.
     initialize fixture_traits fixture_tree fixture_root_box 2 = Inr tree1 \<and>
     initialize fixture_traits tree1 fixture_root_box 1 = Inr tree2 \<and>
     get_tree_depth tree2 = 1 \<and> get_number_nodes tree2 = 1 \<and>
     calculate_node_index 0 0 0 = Inr 0 \<and> get_node_by_index tree2 0 = Inr node \<and>
     get_child_at node 0 = Inr (Some 1) \<and> get_child_at node 1 = Inr (Some 2) \<and>
     get_child_at node 2 = Inr (Some 3) \<and> get_child_at node 3 = Inr (Some 4) \<and>
     has_children node \<and>
     get_node_by_index tree2 1 = Inl Contract_Violation"
proof -
  have d2: "(0::nat) < 2" "(2::nat) \<le> 15" and d1: "(0::nat) < 1" "(1::nat) \<le> 15" by simp_all
  from initialize_post [OF d2, of fixture_traits fixture_tree fixture_root_box]
  obtain tree1 where i1: "initialize fixture_traits fixture_tree fixture_root_box 2 = Inr tree1"
    by blast
  from initialize_post [OF d1, of fixture_traits tree1 fixture_root_box]
  obtain tree2 where i2: "initialize fixture_traits tree1 fixture_root_box 1 = Inr tree2"
    by blast
  have v2: "valid_cell 2 0 0 0" and v1: "valid_cell 1 0 0 0" by (simp_all add: valid_cell_def)
  note c1 = initialized_cell [OF i1 v2]
  note c2 = initialized_cell [OF i2 v1]
  have ls: "level_start 1 = 1" "level_start 2 = 5" by (simp_all add: level_start_def)
  have len1: "length (node_array tree1) = 5" using c1(3) unfolding ls by simp
  have len2: "length (node_array tree2) = 1" using c2(3) unfolding ls by simp
  have first: "resize (Node_init fixture_traits) (node_array fixture_tree) (level_start 2)
      ! node_index 0 0 0 = Node_init fixture_traits"
    unfolding ls node_index_eval by (simp add: resize_fills fixture_tree_def)
  have old: "resize (Node_init fixture_traits) (node_array tree1) (level_start 1) ! node_index 0 0 0
      = node_array tree1 ! 0"
    unfolding ls node_index_eval using len1 by (simp add: resize_keeps)
  have ch1: "children (node_array tree1 ! 0) = [Some 1, Some 2, Some 3, Some 4]"
    using c1(7) unfolding first
    by (simp add: link_children_all Node_init_def node_index_eval quadrant_index_def
        quadrant_col_def quadrant_row_def)
  have ch2: "children (node_array tree2 ! 0) = [Some 1, Some 2, Some 3, Some 4]"
    using c2(8) ch1 unfolding old by (simp add: node_index_eval)
  have g: "get_node_by_index tree2 0 = Inr (node_array tree2 ! 0)"
    "get_node_by_index tree2 1 = Inl Contract_Violation"
    "get_tree_depth tree2 = 1" "get_number_nodes tree2 = 1"
    using len2 c2(1) by (simp_all add: get_node_by_index_def get_tree_depth_def get_number_nodes_def)
  have k: "calculate_node_index 0 0 0 = Inr 0" using c2(4) by (simp add: node_index_eval)
  have "get_child_at (node_array tree2 ! 0) 0 = Inr (Some 1)"
    "get_child_at (node_array tree2 ! 0) 1 = Inr (Some 2)"
    "get_child_at (node_array tree2 ! 0) 2 = Inr (Some 3)"
    "get_child_at (node_array tree2 ! 0) 3 = Inr (Some 4)"
    "has_children (node_array tree2 ! 0)"
    using ch2 by (simp_all add: get_child_at_def has_children_def)
  with i1 i2 g k show ?thesis by blast
qed

text \<open>
  C7. A second \<open>initialize\<close> does not overwrite all state. The fixture tree is
  initialized with depth 2, its nodes are given payloads (the root gets 10), and it is
  initialized again with the same box and depth 1. Depth, node count and the root's
  box then agree with those of a tree freshly initialized with depth 1, but the root
  still holds the payload 10 where the fresh root holds 0, and its four child pointers
  still refer to the nodes 1 to 4, which are no longer in the node array, where the
  fresh root has four null children; so \<open>has_children\<close> answers true on a tree of depth 1.
\<close>

theorem reinitialize_keeps_stale_state:
  "\<exists>tree1 tree2 tree3 fresh stale_root fresh_root.
     initialize fixture_traits fixture_tree fixture_root_box 2 = Inr tree1 \<and>
     set_elements tree1 fixture_payloads = Inr tree2 \<and>
     initialize fixture_traits tree2 fixture_root_box 1 = Inr tree3 \<and>
     initialize fixture_traits fixture_tree fixture_root_box 1 = Inr fresh \<and>
     get_tree_depth tree3 = 1 \<and> get_tree_depth fresh = 1 \<and>
     get_number_nodes tree3 = 1 \<and> get_number_nodes fresh = 1 \<and>
     get_root_node tree3 = Inr stale_root \<and> get_root_node fresh = Inr fresh_root \<and>
     get_bbox stale_root = get_bbox fresh_root \<and>
     get_element stale_root = 10 \<and> get_element fresh_root = 0 \<and>
     children stale_root = [Some 1, Some 2, Some 3, Some 4] \<and>
     children fresh_root = [None, None, None, None] \<and>
     has_children stale_root \<and> \<not> has_children fresh_root \<and>
     get_node_by_index tree3 1 = Inl Contract_Violation"
proof -
  from fixture_client_tree obtain tree1 tree2
    where i: "initialize fixture_traits fixture_tree fixture_root_box 2 = Inr tree1"
      and s: "set_elements tree1 fixture_payloads = Inr tree2"
      and e: "get_element (cell_node tree2 (0, 0, 0)) = 10"
    by blast
  have d: "(0::nat) < 1" "(1::nat) \<le> 15" by simp_all
  from initialize_post [OF d, of fixture_traits tree2 fixture_root_box]
  obtain tree3 where i3: "initialize fixture_traits tree2 fixture_root_box 1 = Inr tree3"
    by blast
  from initialize_post [OF d, of fixture_traits fixture_tree fixture_root_box]
  obtain fresh where i0: "initialize fixture_traits fixture_tree fixture_root_box 1 = Inr fresh"
    by blast
  have v2: "valid_cell 2 0 0 0" and v1: "valid_cell 1 0 0 0" by (simp_all add: valid_cell_def)
  note c1 = initialized_cell [OF i v2]
  note c3 = initialized_cell [OF i3 v1]
  note c0 = initialized_cell [OF i0 v1]
  note f = set_elements_fields [OF s]
  have ls: "level_start 1 = 1" "level_start 2 = 5" by (simp_all add: level_start_def)
  have l3: "length (node_array tree3) = 1" "length (node_array fresh) = 1"
    using c3(3) c0(3) unfolding ls by simp_all
  have len2: "length (node_array tree2) = 5" using f c1(3) ls by simp
  have old: "resize (Node_init fixture_traits) (node_array tree2) (level_start 1) ! node_index 0 0 0
      = node_array tree2 ! 0"
    unfolding ls node_index_eval using len2 by (simp add: resize_keeps)
  have new: "resize (Node_init fixture_traits) (node_array fixture_tree) (level_start 1)
      ! node_index 0 0 0 = Node_init fixture_traits"
    unfolding ls node_index_eval by (simp add: resize_fills fixture_tree_def)
  have first: "resize (Node_init fixture_traits) (node_array fixture_tree) (level_start 2)
      ! node_index 0 0 0 = Node_init fixture_traits"
    unfolding ls node_index_eval by (simp add: resize_fills fixture_tree_def)
  have ch1: "children (node_array tree1 ! 0) = [Some 1, Some 2, Some 3, Some 4]"
    using c1(7) unfolding first
    by (simp add: link_children_all Node_init_def node_index_eval quadrant_index_def
        quadrant_col_def quadrant_row_def)
  have ch2: "children (node_array tree2 ! 0) = [Some 1, Some 2, Some 3, Some 4]"
    using f ch1 by simp
  have e2: "element (node_array tree2 ! 0) = 10"
    using e by (simp add: cell_node_def get_element_def node_index_eval)
  have ch3: "children (node_array tree3 ! 0) = [Some 1, Some 2, Some 3, Some 4]"
    using c3(8) ch2 unfolding old by (simp add: node_index_eval)
  have e3: "element (node_array tree3 ! 0) = 10"
    using c3(9) e2 unfolding old by (simp add: node_index_eval)
  have ch0: "children (node_array fresh ! 0) = [None, None, None, None]"
    using c0(8) unfolding new by (simp add: node_index_eval Node_init_def)
  have e0: "element (node_array fresh ! 0) = 0"
    using c0(9) unfolding new by (simp add: node_index_eval Node_init_def fixture_traits_def)
  have bb: "bbox (node_array tree3 ! 0) = bbox (node_array fresh ! 0)"
    using c3(6) c0(6) by (simp add: node_index_eval)
  have r3: "get_root_node tree3 = Inr (node_array tree3 ! 0)"
    using l3 by (simp add: get_root_node_def)
  have r0: "get_root_node fresh = Inr (node_array fresh ! 0)"
    using l3 by (simp add: get_root_node_def)
  have "get_tree_depth tree3 = 1" "get_tree_depth fresh = 1"
    "get_number_nodes tree3 = 1" "get_number_nodes fresh = 1"
    "get_node_by_index tree3 1 = Inl Contract_Violation"
    using c3(1) c0(1) l3
    by (simp_all add: get_tree_depth_def get_number_nodes_def get_node_by_index_def)
  moreover have "get_bbox (node_array tree3 ! 0) = get_bbox (node_array fresh ! 0)"
    "get_element (node_array tree3 ! 0) = 10" "get_element (node_array fresh ! 0) = 0"
    "has_children (node_array tree3 ! 0)" "\<not> has_children (node_array fresh ! 0)"
    using bb e3 e0 ch3 ch0
    by (simp_all add: get_bbox_def get_element_def has_children_def get_child_at_def)
  ultimately show ?thesis using i s i3 i0 r3 r0 ch3 ch0 by blast
qed

end
